theory Spec2Isabelle
  imports Main "HOL-Library.Sublist"
begin

text \<open>
  The script \<^verbatim>\<open>scripts/micro_benchmarks.py\<close>: it parses its command line, restores and
  builds the micro benchmarks once, and runs them once for each target framework. The
  script is embedded function by function; what it calls outside itself is a parameter,
  the host, and every such call is written to a trace.
\<close>

section \<open>Strings\<close>

text \<open>
  Python strings are modelled as \<^typ>\<open>string\<close>, a character beyond ASCII as the bytes of
  its UTF-8 encoding. The two case conversions the script uses, \<^verbatim>\<open>str.casefold\<close> and
  \<^verbatim>\<open>str.lower\<close>, follow the Unicode tables of the interpreter and are taken from the host.
  On ASCII text both map \<^verbatim>\<open>A\<close>..\<^verbatim>\<open>Z\<close> to \<^verbatim>\<open>a\<close>..\<^verbatim>\<open>z\<close> and leave every other character
  alone, which is \<open>ascii_lower\<close>.
\<close>

definition ascii_lower :: "char \<Rightarrow> char" where
  "ascii_lower c =
     (let n = (of_char c :: nat) in
      if 65 \<le> n \<and> n \<le> 90
      then (case c of Char b0 b1 b2 b3 b4 b5 b6 b7 \<Rightarrow> Char b0 b1 b2 b3 b4 True b6 b7)
      else c)"

definition ascii :: "string \<Rightarrow> bool" where
  "ascii s = list_all (\<lambda>c. (of_char c :: nat) < 128) s"

text \<open>
  \<^verbatim>\<open>len(s)\<close>, the number of characters: a byte from 0x80 to 0xBF continues the character
  that the bytes before it started, every other byte starts one.
\<close>

definition continuation :: "char \<Rightarrow> bool" where
  "continuation c = (128 \<le> (of_char c :: nat) \<and> (of_char c :: nat) < 192)"

definition code_points :: "string \<Rightarrow> nat" where
  "code_points s = length (filter (\<lambda>c. \<not> continuation c) s)"

text \<open>\<^verbatim>\<open>sep.join(xs)\<close>\<close>

fun str_join :: "string \<Rightarrow> string list \<Rightarrow> string" where
  "str_join sep [] = []"
| "str_join sep [x] = x"
| "str_join sep (x # y # ys) = x @ sep @ str_join sep (y # ys)"

text \<open>Truthiness of a value that is \<^verbatim>\<open>None\<close>, a string or a list: \<^verbatim>\<open>if x:\<close>.\<close>

definition truthy :: "'a list option \<Rightarrow> bool" where
  "truthy x = (case x of None \<Rightarrow> False | Some v \<Rightarrow> v \<noteq> [])"

section \<open>The host\<close>

text \<open>
  Everything the script reads from its surroundings: \<^verbatim>\<open>sys.platform\<close>, the order in which the
  interpreter iterates over a set built from a list, its case conversions of strings,
  whether its CSV reader refuses a NUL character (interpreters before 3.11 do, later ones
  read it as any other character), the functions of \<^verbatim>\<open>os.path\<close>, the repository root, which
  directories exist, and how each call to an external collaborator ends. A call ends by
  returning (\<open>None\<close>) or by raising (\<open>Some e\<close>). Of an exception that \<^verbatim>\<open>__main\<close> does not
  name, \<open>Exception\<close> keeps the class.
\<close>

datatype exn =
    CalledProcessError string int
  | IOError int string string
  | SystemExit int
  | Exception string

datatype log_record =
    Info string
  | Command_failed string int
  | IO_failed int string string
  | Unexpected string
  | Traceback

datatype call =
    Validate_supported_runtime
  | Setup_loggers bool
  | Dotnet_info bool
  | Log log_record
  | Remove_directory string
  | Restore string bool
  | Build string "string list" bool
  | Run string string bool "string list"

type_synonym trace = "(call \<times> exn option) list"

record host =
  sys_platform :: string
  set_order :: "string list \<Rightarrow> string list"
  casefold :: "string \<Rightarrow> string"
  str_lower :: "string \<Rightarrow> string"
  csv_rejects_nul :: bool
  path_join :: "string \<Rightarrow> string \<Rightarrow> string"
  abspath :: "string \<Rightarrow> string"
  isfile :: "string \<Rightarrow> bool"
  isdir :: "trace \<Rightarrow> string \<Rightarrow> bool"
  get_repo_root_path :: string
  outcome :: "trace \<Rightarrow> call \<Rightarrow> exn option"

text \<open>
  \<^verbatim>\<open>list(set(values))\<close>: the elements of \<open>values\<close>, each once, in the iteration order of
  the interpreter's set. Python fixes no such order (for strings it changes with the hash
  seed of the process), so the order is the host's; \<open>set_order_ok\<close> says what Python does
  guarantee.
\<close>

definition list_set :: "host \<Rightarrow> string list \<Rightarrow> string list" where
  "list_set h values = set_order h values"

definition set_order_ok :: "host \<Rightarrow> bool" where
  "set_order_ok h = (\<forall>xs. distinct (set_order h xs) \<and> set (set_order h xs) = set xs)"

text \<open>What every interpreter's case conversions do on ASCII text.\<close>

definition case_conversions_ok :: "host \<Rightarrow> bool" where
  "case_conversions_ok h =
     (\<forall>s. ascii s \<longrightarrow> casefold h s = map ascii_lower s \<and> str_lower h s = map ascii_lower s)"

section \<open>Build configurations\<close>

definition get_supported_configurations :: "string list" where
  "get_supported_configurations = [''Release'', ''Debug'']"

text \<open>
  \<^verbatim>\<open>dotnet_configuration\<close>: the loop over the supported configurations returns at the
  first match; after the loop \<^verbatim>\<open>ArgumentTypeError\<close> is raised (\<open>Inl\<close> its message).
\<close>

fun first_matching_configuration :: "host \<Rightarrow> string list \<Rightarrow> string \<Rightarrow> string option" where
  "first_matching_configuration h [] configuration = None"
| "first_matching_configuration h (config # configs) configuration =
     (let is_valid = (casefold h config = casefold h configuration) in
      if is_valid then Some config else first_matching_configuration h configs configuration)"

definition dotnet_configuration :: "host \<Rightarrow> string \<Rightarrow> string + string" where
  "dotnet_configuration h configuration =
     (case first_matching_configuration h get_supported_configurations configuration of
        Some config \<Rightarrow> Inr config
      | None \<Rightarrow> Inl (''Unknown configuration: '' @ configuration @ ''.''))"


section \<open>Pass-through arguments: the CSV reader\<close>

text \<open>
  \<^verbatim>\<open>__get_bdn_arguments\<close> reads its input through \<^verbatim>\<open>csv.reader(StringIO(user_input),
  delimiter=' ')\<close> and returns the first record. The reader is the one of CPython's
  \<^verbatim>\<open>_csv\<close> module under the dialect the call selects: delimiter space, quote character
  \<^verbatim>\<open>"\<close>, doubled quotes, no escape character, no skipping of initial spaces, not strict,
  field size limit 131072. The states for escape characters cannot be reached and are
  left out. A \<^verbatim>\<open>csv.Error\<close> is \<open>Inl\<close> its cause.
\<close>

datatype csv_error =
    Field_larger_than_field_limit
  | Newline_in_unquoted_field
  | Line_contains_NUL

definition LF :: char where "LF = CHR 0x0A"
definition CR :: char where "CR = CHR 0x0D"
definition NUL :: char where "NUL = CHR 0x00"
definition quotechar :: char where "quotechar = CHR 0x22"
definition delimiter :: char where "delimiter = CHR 0x20"

definition field_limit :: nat where
  "field_limit = 131072"

text \<open>Iterating over a \<^verbatim>\<open>StringIO\<close>: the lines, each with its terminating line feed.\<close>

fun stringio_lines :: "string \<Rightarrow> string \<Rightarrow> string list" where
  "stringio_lines cur [] = (if cur = [] then [] else [cur])"
| "stringio_lines cur (c # cs) =
     (if c = LF then (cur @ [c]) # stringio_lines [] cs else stringio_lines (cur @ [c]) cs)"

datatype parser_state =
    START_RECORD | START_FIELD | IN_FIELD | IN_QUOTED_FIELD | QUOTE_IN_QUOTED_FIELD | EAT_CRNL

record reader =
  state :: parser_state
  fieldlist :: "string list"
  field :: string

definition parse_reset :: reader where
  "parse_reset = \<lparr>state = START_RECORD, fieldlist = [], field = []\<rparr>"

definition parse_save_field :: "reader \<Rightarrow> reader" where
  "parse_save_field r = r\<lparr>fieldlist := fieldlist r @ [field r], field := []\<rparr>"

text \<open>
  \<^verbatim>\<open>parse_add_char\<close> adds one character to the field unless the field holds
  \<^verbatim>\<open>field_limit\<close> characters already. The limit is checked where a character starts; the
  bytes that continue the character follow it into the field.
\<close>

definition parse_add_char :: "reader \<Rightarrow> char \<Rightarrow> csv_error + reader" where
  "parse_add_char r c =
     (if \<not> continuation c \<and> code_points (field r) \<ge> field_limit
      then Inl Field_larger_than_field_limit
      else Inr (r\<lparr>field := field r @ [c]\<rparr>))"

definition set_state :: "parser_state \<Rightarrow> csv_error + reader \<Rightarrow> csv_error + reader" where
  "set_state s x = (case x of Inl e \<Rightarrow> Inl e | Inr r \<Rightarrow> Inr (r\<lparr>state := s\<rparr>))"

text \<open>
  \<^verbatim>\<open>parse_process_char\<close>; the character \<open>None\<close> is the end of a line (\<^verbatim>\<open>EOL\<close>). In
  \<^verbatim>\<open>START_RECORD\<close> a character that is neither the end of the line nor a line break
  falls through to \<^verbatim>\<open>START_FIELD\<close>, whose case is \<open>start_field\<close>.
\<close>

definition start_field :: "reader \<Rightarrow> char option \<Rightarrow> csv_error + reader" where
  "start_field r ch =
     (case ch of
        None \<Rightarrow> Inr ((parse_save_field r)\<lparr>state := START_RECORD\<rparr>)
      | Some c \<Rightarrow>
         if c = LF \<or> c = CR then Inr ((parse_save_field r)\<lparr>state := EAT_CRNL\<rparr>)
         else if c = quotechar then Inr (r\<lparr>state := IN_QUOTED_FIELD\<rparr>)
         else if c = delimiter then Inr (parse_save_field r)
         else set_state IN_FIELD (parse_add_char r c))"

definition parse_process_char :: "reader \<Rightarrow> char option \<Rightarrow> csv_error + reader" where
  "parse_process_char r ch =
     (case state r of
        START_RECORD \<Rightarrow>
          (if ch = None then Inr r
           else if ch = Some LF \<or> ch = Some CR then Inr (r\<lparr>state := EAT_CRNL\<rparr>)
           else start_field (r\<lparr>state := START_FIELD\<rparr>) ch)
      | START_FIELD \<Rightarrow> start_field r ch
      | IN_FIELD \<Rightarrow>
          (case ch of
             None \<Rightarrow> Inr ((parse_save_field r)\<lparr>state := START_RECORD\<rparr>)
           | Some c \<Rightarrow>
              if c = LF \<or> c = CR then Inr ((parse_save_field r)\<lparr>state := EAT_CRNL\<rparr>)
              else if c = delimiter then Inr ((parse_save_field r)\<lparr>state := START_FIELD\<rparr>)
              else parse_add_char r c)
      | IN_QUOTED_FIELD \<Rightarrow>
          (case ch of
             None \<Rightarrow> Inr r
           | Some c \<Rightarrow>
              if c = quotechar then Inr (r\<lparr>state := QUOTE_IN_QUOTED_FIELD\<rparr>)
              else parse_add_char r c)
      | QUOTE_IN_QUOTED_FIELD \<Rightarrow>
          (case ch of
             None \<Rightarrow> Inr ((parse_save_field r)\<lparr>state := START_RECORD\<rparr>)
           | Some c \<Rightarrow>
              if c = quotechar then set_state IN_QUOTED_FIELD (parse_add_char r c)
              else if c = delimiter then Inr ((parse_save_field r)\<lparr>state := START_FIELD\<rparr>)
              else if c = LF \<or> c = CR then Inr ((parse_save_field r)\<lparr>state := EAT_CRNL\<rparr>)
              else set_state IN_FIELD (parse_add_char r c))
      | EAT_CRNL \<Rightarrow>
          (case ch of
             None \<Rightarrow> Inr (r\<lparr>state := START_RECORD\<rparr>)
           | Some c \<Rightarrow>
              if c = LF \<or> c = CR then Inr r
              else Inl Newline_in_unquoted_field))"

text \<open>
  The characters of one line, in order. Where the reader refuses NUL, a NUL character
  ends the record with an error before it is processed.
\<close>

fun parse_line :: "bool \<Rightarrow> reader \<Rightarrow> string \<Rightarrow> csv_error + reader" where
  "parse_line rejects_nul r [] = Inr r"
| "parse_line rejects_nul r (c # cs) =
     (if c = NUL \<and> rejects_nul then Inl Line_contains_NUL
      else (case parse_process_char r (Some c) of
              Inl e \<Rightarrow> Inl e
            | Inr r' \<Rightarrow> parse_line rejects_nul r' cs))"

text \<open>
  \<^verbatim>\<open>Reader_iternext\<close>: lines are consumed until the state is \<^verbatim>\<open>START_RECORD\<close> again.
  \<open>Inr None\<close> is the end of the iteration.
\<close>

fun reader_lines :: "bool \<Rightarrow> reader \<Rightarrow> string list \<Rightarrow> csv_error + string list option" where
  "reader_lines rejects_nul r [] =
     (if field r \<noteq> [] \<or> state r = IN_QUOTED_FIELD
      then Inr (Some (fieldlist (parse_save_field r)))
      else Inr None)"
| "reader_lines rejects_nul r (line # rest) =
     (case parse_line rejects_nul r line of
        Inl e \<Rightarrow> Inl e
      | Inr r' \<Rightarrow>
         (case parse_process_char r' None of
            Inl e \<Rightarrow> Inl e
          | Inr r'' \<Rightarrow>
             if state r'' \<noteq> START_RECORD then reader_lines rejects_nul r'' rest
             else Inr (Some (fieldlist r''))))"

definition reader_next :: "bool \<Rightarrow> string list \<Rightarrow> csv_error + string list option" where
  "reader_next rejects_nul input_iter = reader_lines rejects_nul parse_reset input_iter"

text \<open>\<^verbatim>\<open>__get_bdn_arguments\<close>: the first record, or the empty list when there is none.\<close>

definition get_bdn_arguments :: "host \<Rightarrow> string \<Rightarrow> csv_error + string list" where
  "get_bdn_arguments h user_input =
     (case reader_next (csv_rejects_nul h) (stringio_lines [] user_input) of
        Inl e \<Rightarrow> Inl e
      | Inr (Some args) \<Rightarrow> Inr args
      | Inr None \<Rightarrow> Inr [])"

section \<open>Calls to the collaborators\<close>

text \<open>
  A computation takes the trace so far and returns its result, \<open>Inl\<close> an exception raised
  or \<open>Inr\<close> a value, with the trace extended by every call it made and how that call ended.
  The collaborators \<^verbatim>\<open>validate_supported_runtime\<close>, \<^verbatim>\<open>setup_loggers\<close>, \<^verbatim>\<open>dotnet.info\<close> and
  the \<^verbatim>\<open>restore\<close>, \<^verbatim>\<open>build\<close> and \<^verbatim>\<open>run\<close> of \<^verbatim>\<open>dotnet.CSharpProject\<close> are not among the
  sources: a call to one of them is recorded with its arguments and ends as the host
  decides, by returning or by raising any exception.
\<close>

type_synonym 'a computation = "trace \<Rightarrow> (exn + 'a) \<times> trace"

definition extern :: "host \<Rightarrow> call \<Rightarrow> unit computation" where
  "extern h c tr =
     (case outcome h tr c of
        None \<Rightarrow> (Inr (), tr @ [(c, None)])
      | Some e \<Rightarrow> (Inl e, tr @ [(c, Some e)]))"

text \<open>A message handed to the logger: the call is recorded and returns.\<close>

definition log :: "log_record \<Rightarrow> unit computation" where
  "log r tr = (Inr (), tr @ [(Log r, None)])"

definition skip :: "unit computation" where
  "skip tr = (Inr (), tr)"

definition raise :: "exn \<Rightarrow> 'a computation" where
  "raise e tr = (Inl e, tr)"

text \<open>One statement after another: an exception in the first leaves the second out.\<close>

definition and_then :: "unit computation \<Rightarrow> 'a computation \<Rightarrow> 'a computation" where
  "and_then m k tr =
     (case m tr of
        (Inl e, tr') \<Rightarrow> (Inl e, tr')
      | (Inr _, tr') \<Rightarrow> k tr')"

text \<open>\<^verbatim>\<open>for x in xs: body(x)\<close>\<close>

fun for_each :: "('a \<Rightarrow> unit computation) \<Rightarrow> 'a list \<Rightarrow> unit computation" where
  "for_each body [] = skip"
| "for_each body (x # xs) = and_then (body x) (for_each body xs)"

text \<open>
  Modelled from the spec: \<^verbatim>\<open>remove_directory\<close> of \<^verbatim>\<open>performance.common\<close>, which is not
  among the sources. The spec calls it "a directory-removal function (idempotent --
  missing directory is not an error)" and counts a permission error during cleanup
  among the I/O failures. So: on a directory that does not exist the call returns; on
  one that exists it ends as the host decides.
\<close>

definition remove_directory :: "host \<Rightarrow> string \<Rightarrow> unit computation" where
  "remove_directory h path tr =
     (if isdir h tr path then extern h (Remove_directory path) tr
      else (Inr (), tr @ [(Remove_directory path, None)]))"

section \<open>build and run\<close>

definition log_script_header :: "string \<Rightarrow> unit computation" where
  "log_script_header message =
     and_then (log (Info (replicate (length message) CHR ''-'')))
    (and_then (log (Info message))
              (log (Info (replicate (length message) CHR ''-''))))"

text \<open>
  \<^verbatim>\<open>BENCHMARKS_CSPROJ\<close>: its working directory. Its methods \<^verbatim>\<open>restore\<close>, \<^verbatim>\<open>build\<close> and
  \<^verbatim>\<open>run\<close> are calls to the collaborator \<^verbatim>\<open>dotnet.CSharpProject\<close>.
\<close>

definition working_directory :: "host \<Rightarrow> string" where
  "working_directory h =
     path_join h (path_join h (path_join h (get_repo_root_path h) ''src'') ''benchmarks'') ''micro''"

text \<open>
  \<^verbatim>\<open>build\<close>. Its \<open>frameworks\<close> is the attribute of the parsed arguments, a list or
  \<^verbatim>\<open>None\<close>; joining \<^verbatim>\<open>None\<close> raises \<^verbatim>\<open>TypeError\<close>.
\<close>

definition build ::
  "host \<Rightarrow> string \<Rightarrow> string list option \<Rightarrow> string \<Rightarrow> bool \<Rightarrow> unit computation" where
  "build h configuration frameworks incremental verbose =
     (let packages = path_join h (get_repo_root_path h) ''packages'' in
      and_then
        (if incremental = ''no'' then
           and_then (log_script_header ''Removing packages, bin and obj folders.'')
             (let binary_folders =
                    [packages,
                     path_join h (working_directory h) ''bin'',
                     path_join h (working_directory h) ''obj'']
              in for_each (\<lambda>binary_folder. remove_directory h binary_folder) binary_folders)
         else skip)
     (and_then (log_script_header ''Restoring .NET micro benchmarks'')
     (and_then (extern h (Restore packages verbose))
     (case frameworks of
        None \<Rightarrow> raise (Exception ''TypeError'')
      | Some fs \<Rightarrow>
         (let build_title =
                ''Building .NET micro benchmarks for '' @ [CHR 0x27] @ str_join '' '' fs @ [CHR 0x27]
          in and_then (log_script_header build_title)
                      (extern h (Build configuration fs verbose)))))))"

definition run :: "host \<Rightarrow> string \<Rightarrow> string \<Rightarrow> bool \<Rightarrow> string list \<Rightarrow> unit computation" where
  "run h configuration framework verbose args =
     and_then
       (log_script_header
          (''Running .NET micro benchmarks for '' @ [CHR 0x27] @ framework @ [CHR 0x27]))
       (extern h (Run configuration framework verbose args))"

section \<open>TargetFrameworkAction\<close>

record namespace =
  verbose :: bool
  configuration :: string
  frameworks :: "string list option"
  incremental :: string
  enable_pmc :: bool
  category :: "string option"
  filter_arg :: "string list option"
  corerun :: "string option"
  cli :: "string option"
  bdn_arguments :: "string list option"

definition get_framework_channel_map :: "(string \<times> string) list" where
  "get_framework_channel_map =
     [(''netcoreapp3.0'', ''master''),
      (''netcoreapp2.2'', ''2.2''),
      (''netcoreapp2.1'', ''2.1''),
      (''netcoreapp2.0'', ''2.0'')]"

definition get_supported_target_frameworks :: "host \<Rightarrow> string list" where
  "get_supported_target_frameworks h =
     (let frameworks = map fst get_framework_channel_map in
      if sys_platform h = ''win32'' then frameworks @ [''net461''] else frameworks)"

definition get_channel :: "string \<Rightarrow> string option" where
  "get_channel framework = map_of get_framework_channel_map framework"

text \<open>
  \<^verbatim>\<open>TargetFrameworkAction.__call__\<close>: raises \<^verbatim>\<open>ArgumentError\<close> (\<open>Inl\<close> its message) or
  returns the namespace with \<^verbatim>\<open>frameworks\<close> set.
\<close>

definition TargetFrameworkAction_call ::
  "host \<Rightarrow> namespace \<Rightarrow> string list \<Rightarrow> string + namespace" where
  "TargetFrameworkAction_call h ns values =
     (if values \<noteq> [] then
        (let supported_target_frameworks = get_supported_target_frameworks h;
             wrong_choices = filter (\<lambda>value. value \<notin> set supported_target_frameworks) values
         in if wrong_choices \<noteq> []
            then Inl (''Invalid choice(s): '' @ str_join '', '' wrong_choices)
            else Inr (ns\<lparr>frameworks := Some (list_set h values)\<rparr>))
      else Inr ns)"


section \<open>Parsing the command line\<close>

text \<open>
  The command line as \<^verbatim>\<open>argparse\<close> splits it: the options in the order given, each with
  the strings that follow it. What the script adds to \<^verbatim>\<open>argparse\<close> (the \<^verbatim>\<open>type\<close>
  functions, the \<^verbatim>\<open>choices\<close>, the action of \<^verbatim>\<open>--frameworks\<close>, \<^verbatim>\<open>nargs\<close>, the defaults and
  \<^verbatim>\<open>required\<close>) is applied to them as \<^verbatim>\<open>argparse\<close> applies it: an option's strings are
  converted by its \<^verbatim>\<open>type\<close>, then every converted value is checked against its
  \<^verbatim>\<open>choices\<close>, and only then its action is called.
\<close>

datatype raw_option =
    Opt_help
  | Opt_verbose
  | Opt_configuration string
  | Opt_frameworks "string list"
  | Opt_incremental string
  | Opt_enable_hardware_counters
  | Opt_category string
  | Opt_filter "string list"
  | Opt_corerun string
  | Opt_cli string
  | Opt_bdn_arguments string

datatype argument_error =
    Invalid_choice string "string list"
  | Message string
  | Expected_at_least_one_argument
  | Arguments_required

text \<open>
  How parsing ends when it yields no namespace: the help was printed, \<^verbatim>\<open>parser.error\<close>
  was called with an \<^verbatim>\<open>ArgumentError\<close>, or another exception left a \<^verbatim>\<open>type\<close> function.
\<close>

datatype parser_exit =
    Exit_help
  | Exit_error argument_error
  | Propagated exn

definition check_value :: "string list \<Rightarrow> string \<Rightarrow> argument_error + string" where
  "check_value choices v =
     (if v \<notin> set choices then Inl (Invalid_choice v choices) else Inr v)"

fun check_values :: "string list \<Rightarrow> string list \<Rightarrow> argument_error + string list" where
  "check_values choices [] = Inr []"
| "check_values choices (v # vs) =
     (case check_value choices v of
        Inl e \<Rightarrow> Inl e
      | Inr _ \<Rightarrow> (case check_values choices vs of Inl e \<Rightarrow> Inl e | Inr vs' \<Rightarrow> Inr (v # vs')))"

definition valid_file_path :: "host \<Rightarrow> string \<Rightarrow> string + string" where
  "valid_file_path h file_path =
     (let file_path = abspath h file_path in
      if \<not> isfile h file_path then Inl (file_path @ '' does not exist.'')
      else Inr file_path)"

definition default_namespace :: namespace where
  "default_namespace =
     \<lparr>verbose = False,
      configuration = get_supported_configurations ! 0,
      frameworks = None,
      incremental = ''yes'',
      enable_pmc = False,
      category = None,
      filter_arg = None,
      corerun = None,
      cli = None,
      bdn_arguments = None\<rparr>"

fun take_action :: "host \<Rightarrow> namespace \<Rightarrow> raw_option \<Rightarrow> parser_exit + namespace" where
  "take_action h ns Opt_help = Inl Exit_help"
| "take_action h ns Opt_verbose = Inr (ns\<lparr>verbose := True\<rparr>)"
| "take_action h ns (Opt_configuration s) =
     (case dotnet_configuration h s of
        Inl msg \<Rightarrow> Inl (Exit_error (Message msg))
      | Inr v \<Rightarrow>
         (case check_value get_supported_configurations v of
            Inl e \<Rightarrow> Inl (Exit_error e)
          | Inr v \<Rightarrow> Inr (ns\<lparr>configuration := v\<rparr>)))"
| "take_action h ns (Opt_frameworks vs) =
     (if vs = [] then Inl (Exit_error Expected_at_least_one_argument)
      else (case check_values (get_supported_target_frameworks h) vs of
              Inl e \<Rightarrow> Inl (Exit_error e)
            | Inr vs \<Rightarrow>
               (case TargetFrameworkAction_call h ns vs of
                  Inl msg \<Rightarrow> Inl (Exit_error (Message msg))
                | Inr ns' \<Rightarrow> Inr ns')))"
| "take_action h ns (Opt_incremental s) =
     (case check_value [''yes'', ''no''] s of
        Inl e \<Rightarrow> Inl (Exit_error e)
      | Inr v \<Rightarrow> Inr (ns\<lparr>incremental := v\<rparr>))"
| "take_action h ns Opt_enable_hardware_counters = Inr (ns\<lparr>enable_pmc := True\<rparr>)"
| "take_action h ns (Opt_category s) =
     (case check_value [''coreclr'', ''corefx''] (str_lower h s) of
        Inl e \<Rightarrow> Inl (Exit_error e)
      | Inr v \<Rightarrow> Inr (ns\<lparr>category := Some v\<rparr>))"
| "take_action h ns (Opt_filter ps) =
     (if ps = [] then Inl (Exit_error Expected_at_least_one_argument)
      else Inr (ns\<lparr>filter_arg := Some ps\<rparr>))"
| "take_action h ns (Opt_corerun p) =
     (case valid_file_path h p of
        Inl msg \<Rightarrow> Inl (Exit_error (Message msg))
      | Inr v \<Rightarrow> Inr (ns\<lparr>corerun := Some v\<rparr>))"
| "take_action h ns (Opt_cli p) =
     (case valid_file_path h p of
        Inl msg \<Rightarrow> Inl (Exit_error (Message msg))
      | Inr v \<Rightarrow> Inr (ns\<lparr>cli := Some v\<rparr>))"
| "take_action h ns (Opt_bdn_arguments s) =
     (case get_bdn_arguments h s of
        Inl e \<Rightarrow> Inl (Propagated (Exception ''_csv.Error''))
      | Inr v \<Rightarrow> Inr (ns\<lparr>bdn_arguments := Some v\<rparr>))"

fun take_actions :: "host \<Rightarrow> namespace \<Rightarrow> raw_option list \<Rightarrow> parser_exit + namespace" where
  "take_actions h ns [] = Inr ns"
| "take_actions h ns (opt # opts) =
     (case take_action h ns opt of
        Inl e \<Rightarrow> Inl e
      | Inr ns' \<Rightarrow> take_actions h ns' opts)"

fun is_frameworks :: "raw_option \<Rightarrow> bool" where
  "is_frameworks (Opt_frameworks vs) = True"
| "is_frameworks opt = False"

text \<open>\<^verbatim>\<open>parse_args\<close>: the options in order, then the check that \<^verbatim>\<open>--frameworks\<close> was given.\<close>

definition parse_args :: "host \<Rightarrow> raw_option list \<Rightarrow> parser_exit + namespace" where
  "parse_args h opts =
     (case take_actions h default_namespace opts of
        Inl e \<Rightarrow> Inl e
      | Inr ns \<Rightarrow>
         if list_ex is_frameworks opts then Inr ns else Inl (Exit_error Arguments_required))"

text \<open>
  What \<^verbatim>\<open>__process_arguments\<close> raises: \<^verbatim>\<open>SystemExit(0)\<close> after the help,
  \<^verbatim>\<open>SystemExit(2)\<close> from \<^verbatim>\<open>parser.error\<close>.
\<close>

fun exit_exn :: "parser_exit \<Rightarrow> exn" where
  "exit_exn Exit_help = SystemExit 0"
| "exit_exn (Exit_error e) = SystemExit 2"
| "exit_exn (Propagated e) = e"

definition process_arguments :: "host \<Rightarrow> raw_option list \<Rightarrow> exn + namespace" where
  "process_arguments h opts =
     (case parse_args h opts of Inl e \<Rightarrow> Inl (exit_exn e) | Inr ns \<Rightarrow> Inr ns)"

section \<open>The entry point\<close>

text \<open>The arguments after the framework in each call of \<^verbatim>\<open>run\<close>, built as the loop body does.\<close>

definition run_args :: "namespace \<Rightarrow> string list" where
  "run_args args =
     (let a0 = [''--''];
          a1 = (if truthy (category args)
                then a0 @ [''--allCategories''] @ (case category args of Some c \<Rightarrow> [c] | None \<Rightarrow> [])
                else a0);
          a2 = (if truthy (corerun args)
                then a1 @ [''--coreRun''] @ (case corerun args of Some p \<Rightarrow> [p] | None \<Rightarrow> [])
                else a1);
          a3 = (if truthy (cli args)
                then a2 @ [''--cli''] @ (case cli args of Some p \<Rightarrow> [p] | None \<Rightarrow> [])
                else a2);
          a4 = (if enable_pmc args
                then a3 @ [''--counters'', ''BranchMispredictions+CacheMisses+InstructionRetired'']
                else a3);
          a5 = (if truthy (filter_arg args)
                then a4 @ [''--filter''] @ (case filter_arg args of Some ps \<Rightarrow> ps | None \<Rightarrow> [])
                else a4);
          a6 = (if truthy (bdn_arguments args)
                then a5 @ (case bdn_arguments args of Some ts \<Rightarrow> ts | None \<Rightarrow> [])
                else a5)
      in a6)"

text \<open>The body of the \<^verbatim>\<open>try\<close> in \<^verbatim>\<open>__main\<close>.\<close>

definition main_try :: "host \<Rightarrow> raw_option list \<Rightarrow> unit computation" where
  "main_try h opts =
     and_then (extern h Validate_supported_runtime)
       (case process_arguments h opts of
          Inl e \<Rightarrow> raise e
        | Inr args \<Rightarrow>
           and_then (extern h (Setup_loggers (verbose args)))
          (and_then (extern h (Dotnet_info (verbose args)))
          (and_then (build h (configuration args) (frameworks args) (incremental args) (verbose args))
            (case frameworks args of
               None \<Rightarrow> raise (Exception ''TypeError'')
             | Some fs \<Rightarrow>
                for_each
                  (\<lambda>framework. run h (configuration args) framework (verbose args) (run_args args))
                  fs))))"

text \<open>The \<^verbatim>\<open>except\<close> clauses of \<^verbatim>\<open>__main\<close>.\<close>

fun handler :: "exn \<Rightarrow> unit computation" where
  "handler (CalledProcessError cmd returncode) = log (Command_failed cmd returncode)"
| "handler (IOError errno strerror filename) = log (IO_failed errno strerror filename)"
| "handler (SystemExit code) = skip"
| "handler (Exception cls) =
     and_then (log (Unexpected cls)) (log Traceback)"

text \<open>
  \<^verbatim>\<open>__main\<close>: the exit code and every call made. The exit code is 0 at the end of the
  \<^verbatim>\<open>try\<close> block and 1 after every \<^verbatim>\<open>except\<close> clause.
\<close>

definition main :: "host \<Rightarrow> raw_option list \<Rightarrow> int \<times> trace" where
  "main h opts =
     (case main_try h opts [] of
        (Inr _, tr) \<Rightarrow> (0, tr)
      | (Inl e, tr) \<Rightarrow> (1, snd (handler e tr)))"

section \<open>Reading a trace\<close>

definition calls :: "trace \<Rightarrow> call list" where
  "calls tr = map fst tr"

text \<open>Every call of the trace returned.\<close>

definition all_returned :: "trace \<Rightarrow> bool" where
  "all_returned tr = list_all (\<lambda>entry. snd entry = None) tr"

fun is_remove_directory :: "call \<Rightarrow> bool" where
  "is_remove_directory (Remove_directory path) = True"
| "is_remove_directory c = False"

fun is_restore :: "call \<Rightarrow> bool" where
  "is_restore (Restore packages_path v) = True"
| "is_restore c = False"

fun is_build :: "call \<Rightarrow> bool" where
  "is_build (Build c fs v) = True"
| "is_build c = False"

fun is_run :: "call \<Rightarrow> bool" where
  "is_run (Run c f v args) = True"
| "is_run c = False"

text \<open>A message logged at error severity.\<close>

fun is_error_log :: "call \<Rightarrow> bool" where
  "is_error_log (Log (Info message)) = False"
| "is_error_log (Log r) = True"
| "is_error_log c = False"

section \<open>Example hosts\<close>

text \<open>
  A case folding that lower-cases the ASCII letters and folds the long s, U+017F (the bytes
  C5 BF), to \<open>s\<close>, as \<^verbatim>\<open>str.casefold\<close> does; it leaves every other character as it is.
\<close>

fun example_casefold :: "string \<Rightarrow> string" where
  "example_casefold [] = []"
| "example_casefold [c] = [ascii_lower c]"
| "example_casefold (c # d # cs) =
     (if c = CHR 0xC5 \<and> d = CHR 0xBF then CHR ''s'' # example_casefold cs
      else ascii_lower c # example_casefold (d # cs))"

text \<open>
  A Linux host on which every collaborator succeeds, no directory to clean exists, one
  runtime executable exists, a set of strings is iterated from the element inserted last
  to the one inserted first, and the CSV reader refuses NUL.
\<close>

definition example_host :: host where
  "example_host =
     \<lparr>sys_platform = ''linux'',
      set_order = (\<lambda>xs. rev (remdups xs)),
      casefold = example_casefold,
      str_lower = map ascii_lower,
      csv_rejects_nul = True,
      path_join = (\<lambda>a b. a @ ''/'' @ b),
      abspath = (\<lambda>p. p),
      isfile = (\<lambda>p. p = ''/opt/corerun''),
      isdir = (\<lambda>tr p. False),
      get_repo_root_path = ''/repo'',
      outcome = (\<lambda>tr c. None)\<rparr>"

text \<open>The same host with a restore that exits with status 1.\<close>

definition restore_failing_host :: host where
  "restore_failing_host =
     example_host\<lparr>outcome :=
       (\<lambda>tr c. if is_restore c then Some (CalledProcessError ''dotnet restore'' 1) else None)\<rparr>"

section \<open>The calls a run is made of\<close>

text \<open>
  The calls the script makes, in order, when no call raises: the plan. Which calls are in
  the plan depends on the command line and the host only, never on how a call ends; a
  call that raises cuts the plan short.
\<close>

definition header_plan :: "string \<Rightarrow> call list" where
  "header_plan message =
     [Log (Info (replicate (length message) CHR ''-'')),
      Log (Info message),
      Log (Info (replicate (length message) CHR ''-''))]"

text \<open>The folders that \<^verbatim>\<open>build\<close> removes, its local \<^verbatim>\<open>binary_folders\<close>.\<close>

definition binary_folders :: "host \<Rightarrow> string list" where
  "binary_folders h =
     [path_join h (get_repo_root_path h) ''packages'',
      path_join h (working_directory h) ''bin'',
      path_join h (working_directory h) ''obj'']"

text \<open>The plans of the stages and of the whole run.\<close>

definition clean_plan :: "host \<Rightarrow> string \<Rightarrow> call list" where
  "clean_plan h inc =
     (if inc = ''no''
      then header_plan ''Removing packages, bin and obj folders.'' @ map Remove_directory (binary_folders h)
      else [])"

definition build_plan :: "host \<Rightarrow> string \<Rightarrow> string list option \<Rightarrow> string \<Rightarrow> bool \<Rightarrow> call list" where
  "build_plan h c fs inc v =
     clean_plan h inc
     @ header_plan ''Restoring .NET micro benchmarks''
     @ [Restore (path_join h (get_repo_root_path h) ''packages'') v]
     @ (case fs of
          None \<Rightarrow> []
        | Some fs' \<Rightarrow>
           header_plan (''Building .NET micro benchmarks for '' @ [CHR 0x27] @ str_join '' '' fs' @ [CHR 0x27])
           @ [Build c fs' v])"

definition run_plan :: "string \<Rightarrow> string \<Rightarrow> bool \<Rightarrow> string list \<Rightarrow> call list" where
  "run_plan c f v extra =
     header_plan (''Running .NET micro benchmarks for '' @ [CHR 0x27] @ f @ [CHR 0x27])
     @ [Run c f v extra]"

definition args_plan :: "host \<Rightarrow> namespace \<Rightarrow> call list" where
  "args_plan h args =
     [Setup_loggers (verbose args), Dotnet_info (verbose args)]
     @ build_plan h (configuration args) (frameworks args) (incremental args) (verbose args)
     @ (case frameworks args of
          None \<Rightarrow> []
        | Some fs \<Rightarrow> concat (map (\<lambda>f. run_plan (configuration args) f (verbose args) (run_args args)) fs))"

definition main_plan :: "host \<Rightarrow> raw_option list \<Rightarrow> call list" where
  "main_plan h opts =
     Validate_supported_runtime
     # (case process_arguments h opts of Inl e \<Rightarrow> [] | Inr args \<Rightarrow> args_plan h args)"




text \<open>The calls of the plan that come before the restore.\<close>

definition before_restore :: "host \<Rightarrow> namespace \<Rightarrow> call list" where
  "before_restore h args =
     [Validate_supported_runtime, Setup_loggers (verbose args), Dotnet_info (verbose args)]
     @ clean_plan h (incremental args) @ header_plan ''Restoring .NET micro benchmarks''"

text \<open>
  A computation follows a plan when, from every trace, it appends calls that form a prefix
  of the plan, every one of them but the last has returned, and a computation that returns
  has made all the calls of the plan, all of which returned.
\<close>

definition follows_plan :: "'a computation \<Rightarrow> call list \<Rightarrow> bool" where
  "follows_plan m p =
     (\<forall>tr. \<exists>ext. snd (m tr) = tr @ ext \<and> prefix (calls ext) p \<and> all_returned (butlast ext)
        \<and> (case fst (m tr) of Inr _ \<Rightarrow> calls ext = p \<and> all_returned ext | Inl _ \<Rightarrow> True))"

text \<open>The frameworks of the calls of \<^verbatim>\<open>run\<close> in a trace, in the order of the calls.\<close>

fun run_target :: "call \<Rightarrow> string list" where
  "run_target (Run c f v extra) = [f]"
| "run_target c = []"

definition run_targets :: "trace \<Rightarrow> string list" where
  "run_targets tr = concat (map run_target (calls tr))"

text \<open>The elements of a list, each once, in the order of their first occurrence.\<close>

definition first_occurrence_order :: "string list \<Rightarrow> string list" where
  "first_occurrence_order xs = rev (remdups (rev xs))"

text \<open>
  What parsing guarantees of a namespace: an optional string or list that is set is not
  empty, and the frameworks are the list made from a set of supported values.
\<close>

definition validated :: "namespace \<Rightarrow> bool" where
  "validated ns =
     (category ns \<noteq> Some [] \<and> corerun ns \<noteq> Some [] \<and> cli ns \<noteq> Some []
      \<and> filter_arg ns \<noteq> Some [])"

definition frameworks_stored :: "host \<Rightarrow> namespace \<Rightarrow> bool" where
  "frameworks_stored h ns =
     (\<exists>vs. vs \<noteq> [] \<and> set vs \<subseteq> set (get_supported_target_frameworks h)
           \<and> frameworks ns = Some (list_set h vs))"

section \<open>The pass-through string read as one text\<close>

text \<open>
  Splitting a line at every space: the fields between the delimiters, empty ones kept.
\<close>

fun split_fields :: "string \<Rightarrow> string list" where
  "split_fields [] = [[]]"
| "split_fields (c # cs) =
     (if c = delimiter then [] # split_fields cs
      else (c # hd (split_fields cs)) # tl (split_fields cs))"

text \<open>
  The first record of a text, read from left to right without cutting the text into
  lines. \<open>fs\<close> are the fields completed so far and \<open>fd\<close> is the field being read. Fields
  are separated by one space each. A field that starts with a double quote runs to the
  closing quote: spaces, line feeds and carriage returns inside belong to the field, and
  a doubled quote stands for one quote. What follows a closing quote up to the next space
  belongs to the field as it is written, and so does a quote inside a field that did not
  start with one. The record ends at the first line feed or carriage return outside
  quotes, or at the end of the text; after a carriage return only carriage returns may
  come before the line feed. A field never grows beyond the field limit: it is full for
  a character when it holds that many characters already. A reader that refuses NUL stops
  at the first one it meets.
\<close>

definition field_full :: "string \<Rightarrow> char \<Rightarrow> bool" where
  "field_full fd c = (\<not> continuation c \<and> code_points fd \<ge> field_limit)"

fun read_line_break :: "bool \<Rightarrow> string list \<Rightarrow> string \<Rightarrow> csv_error + string list"
  and read_field :: "bool \<Rightarrow> string list \<Rightarrow> string \<Rightarrow> csv_error + string list"
  and read_unquoted :: "bool \<Rightarrow> string list \<Rightarrow> string \<Rightarrow> string \<Rightarrow> csv_error + string list"
  and read_quoted :: "bool \<Rightarrow> string list \<Rightarrow> string \<Rightarrow> string \<Rightarrow> csv_error + string list"
  and read_after_quote :: "bool \<Rightarrow> string list \<Rightarrow> string \<Rightarrow> string \<Rightarrow> csv_error + string list"
where
  "read_line_break b fs [] = Inr fs"
| "read_line_break b fs (c # cs) =
     (if c = NUL \<and> b then Inl Line_contains_NUL
      else if c = LF then Inr fs
      else if c = CR then read_line_break b fs cs
      else Inl Newline_in_unquoted_field)"
| "read_field b fs [] = Inr (fs @ [[]])"
| "read_field b fs (c # cs) =
     (if c = NUL \<and> b then Inl Line_contains_NUL
      else if c = LF then Inr (fs @ [[]])
      else if c = CR then read_line_break b (fs @ [[]]) cs
      else if c = quotechar then read_quoted b fs [] cs
      else if c = delimiter then read_field b (fs @ [[]]) cs
      else read_unquoted b fs [c] cs)"
| "read_unquoted b fs fd [] = Inr (fs @ [fd])"
| "read_unquoted b fs fd (c # cs) =
     (if c = NUL \<and> b then Inl Line_contains_NUL
      else if c = LF then Inr (fs @ [fd])
      else if c = CR then read_line_break b (fs @ [fd]) cs
      else if c = delimiter then read_field b (fs @ [fd]) cs
      else if field_full fd c then Inl Field_larger_than_field_limit
      else read_unquoted b fs (fd @ [c]) cs)"
| "read_quoted b fs fd [] = Inr (fs @ [fd])"
| "read_quoted b fs fd (c # cs) =
     (if c = NUL \<and> b then Inl Line_contains_NUL
      else if c = quotechar then read_after_quote b fs fd cs
      else if field_full fd c then Inl Field_larger_than_field_limit
      else read_quoted b fs (fd @ [c]) cs)"
| "read_after_quote b fs fd [] = Inr (fs @ [fd])"
| "read_after_quote b fs fd (c # cs) =
     (if c = NUL \<and> b then Inl Line_contains_NUL
      else if c = quotechar then
        (if field_full fd c then Inl Field_larger_than_field_limit
         else read_quoted b fs (fd @ [c]) cs)
      else if c = delimiter then read_field b (fs @ [fd]) cs
      else if c = LF then Inr (fs @ [fd])
      else if c = CR then read_line_break b (fs @ [fd]) cs
      else if field_full fd c then Inl Field_larger_than_field_limit
      else read_unquoted b fs (fd @ [c]) cs)"

text \<open>The empty text and a text that starts with a line feed hold no field at all.\<close>

definition first_record :: "bool \<Rightarrow> string \<Rightarrow> csv_error + string list" where
  "first_record b input =
     (case input of
        [] \<Rightarrow> Inr []
      | c # cs \<Rightarrow>
         if c = NUL \<and> b then Inl Line_contains_NUL
         else if c = LF then Inr []
         else if c = CR then read_line_break b [] cs
         else read_field b [] input)"

text \<open>
  Writing tokens so that they can be read back: each token between double quotes, every
  quote inside it doubled, the tokens separated by one space.
\<close>

definition quote_token :: "string \<Rightarrow> string" where
  "quote_token t =
     quotechar # concat (map (\<lambda>c. if c = quotechar then [quotechar, quotechar] else [c]) t)
       @ [quotechar]"

definition render :: "string list \<Rightarrow> string" where
  "render ts = str_join [delimiter] (map quote_token ts)"

text \<open>
  Splitting at whitespace as a shell does: the whitespace characters of ASCII are the
  space, the tab, the line feed, the vertical tab, the form feed and the carriage return,
  and every run of them separates two tokens.
\<close>

definition is_whitespace :: "char \<Rightarrow> bool" where
  "is_whitespace c = (c \<in> {CHR 0x20, CHR 0x09, CHR 0x0A, CHR 0x0B, CHR 0x0C, CHR 0x0D})"

fun whitespace_delimited :: "string \<Rightarrow> string \<Rightarrow> string list" where
  "whitespace_delimited cur [] = (if cur = [] then [] else [cur])"
| "whitespace_delimited cur (c # cs) =
     (if is_whitespace c then (if cur = [] then [] else [cur]) @ whitespace_delimited [] cs
      else whitespace_delimited (cur @ [c]) cs)"

text \<open>
  The reader between two characters of a line and the text still to read: where the
  reading of the whole text goes on from there. In a record that has not started no
  field is held, and none is being read before a field starts or after a line break.
\<close>

definition resume :: "bool \<Rightarrow> reader \<Rightarrow> string \<Rightarrow> csv_error + string list" where
  "resume b r cs =
     (case state r of
        START_RECORD \<Rightarrow> first_record b cs
      | START_FIELD \<Rightarrow> read_field b (fieldlist r) cs
      | IN_FIELD \<Rightarrow> read_unquoted b (fieldlist r) (field r) cs
      | IN_QUOTED_FIELD \<Rightarrow> read_quoted b (fieldlist r) (field r) cs
      | QUOTE_IN_QUOTED_FIELD \<Rightarrow> read_after_quote b (fieldlist r) (field r) cs
      | EAT_CRNL \<Rightarrow> read_line_break b (fieldlist r) cs)"

definition consistent :: "reader \<Rightarrow> bool" where
  "consistent r =
     ((state r = START_RECORD \<longrightarrow> fieldlist r = [] \<and> field r = [])
      \<and> (state r = START_FIELD \<or> state r = EAT_CRNL \<longrightarrow> field r = []))"

text \<open>
  The lines still to read when the reader stands inside a line: the rest of that line,
  which may be empty, and the lines after it.
\<close>

definition remaining_lines :: "string \<Rightarrow> string list" where
  "remaining_lines s = (if s = [] then [[]] else stringio_lines [] s)"

definition record_of :: "csv_error + string list option \<Rightarrow> csv_error + string list" where
  "record_of x = (case x of Inl e \<Rightarrow> Inl e | Inr None \<Rightarrow> Inr [] | Inr (Some args) \<Rightarrow> Inr args)"

text \<open>What may follow the first record: nothing, or a line feed and any text.\<close>

definition is_tail :: "string \<Rightarrow> bool" where
  "is_tail tail = (tail = [] \<or> hd tail = LF)"

section \<open>Properties of the build configuration\<close>

lemma example_casefold_ascii: "ascii s \<Longrightarrow> example_casefold s = map ascii_lower s"
proof (induction s rule: example_casefold.induct)
  case (3 c d cs)
  from "3.prems" have small: "(of_char c :: nat) < 128" and rest: "ascii (d # cs)"
    by (simp_all add: ascii_def)
  from small have "c \<noteq> CHR 0xC5" by auto
  with 3 rest show ?case by simp
qed simp_all

lemma example_host_case_conversions_ok: "case_conversions_ok example_host"
  by (simp add: case_conversions_ok_def example_host_def example_casefold_ascii)

lemma lower_Release: "map ascii_lower ''Release'' = ''release''"
  by (simp add: ascii_lower_def)

lemma lower_Debug: "map ascii_lower ''Debug'' = ''debug''"
  by (simp add: ascii_lower_def)

lemma ascii_Release: "ascii ''Release''"
  by (simp add: ascii_def)

lemma ascii_Debug: "ascii ''Debug''"
  by (simp add: ascii_def)

text \<open>
  C8. The build configuration is compared with the supported ones, \<open>Release\<close> and
  \<open>Debug\<close>, after case folding of both sides by the interpreter's \<^verbatim>\<open>str.casefold\<close>. An
  input that folds to the same string as \<open>Release\<close> is stored as \<open>Release\<close>, one that folds
  to the same string as \<open>Debug\<close> as \<open>Debug\<close>; every other input is refused with a message
  that holds the input as it was typed. The option \<open>--configuration\<close> stores what the
  conversion returns and exits with its message. On ASCII input, where every interpreter
  folds by lower-casing \<^verbatim>\<open>A\<close>..\<^verbatim>\<open>Z\<close>, the accepted inputs are the spellings of \<open>release\<close>
  and \<open>debug\<close> in any mix of upper and lower case.
\<close>

theorem dotnet_configuration_canonical:
  "set get_supported_configurations = {''Release'', ''Debug''}
   \<and> dotnet_configuration h s =
       (if casefold h s = casefold h ''Release'' then Inr ''Release''
        else if casefold h s = casefold h ''Debug'' then Inr ''Debug''
        else Inl (''Unknown configuration: '' @ s @ ''.''))
   \<and> take_action h ns (Opt_configuration s) =
       (case dotnet_configuration h s of
          Inr config \<Rightarrow> Inr (ns\<lparr>configuration := config\<rparr>)
        | Inl msg \<Rightarrow> Inl (Exit_error (Message msg)))
   \<and> (case_conversions_ok h \<and> ascii s \<longrightarrow>
        dotnet_configuration h s =
          (if map ascii_lower s = ''release'' then Inr ''Release''
           else if map ascii_lower s = ''debug'' then Inr ''Debug''
           else Inl (''Unknown configuration: '' @ s @ ''.'')))"
proof -
  have supported: "set get_supported_configurations = {''Release'', ''Debug''}"
    by (simp add: get_supported_configurations_def)
  have conv: "dotnet_configuration h s =
       (if casefold h s = casefold h ''Release'' then Inr ''Release''
        else if casefold h s = casefold h ''Debug'' then Inr ''Debug''
        else Inl (''Unknown configuration: '' @ s @ ''.''))"
    by (simp add: dotnet_configuration_def get_supported_configurations_def Let_def eq_commute)
  have stored: "take_action h ns (Opt_configuration s) =
       (case dotnet_configuration h s of
          Inr config \<Rightarrow> Inr (ns\<lparr>configuration := config\<rparr>)
        | Inl msg \<Rightarrow> Inl (Exit_error (Message msg)))"
    by (simp add: conv check_value_def get_supported_configurations_def)
  have on_ascii: "dotnet_configuration h s =
          (if map ascii_lower s = ''release'' then Inr ''Release''
           else if map ascii_lower s = ''debug'' then Inr ''Debug''
           else Inl (''Unknown configuration: '' @ s @ ''.''))"
    if ok: "case_conversions_ok h" and s: "ascii s"
  proof -
    from ok s have "casefold h s = map ascii_lower s"
      by (simp add: case_conversions_ok_def)
    moreover from ok ascii_Release have "casefold h ''Release'' = ''release''"
      unfolding case_conversions_ok_def lower_Release [symmetric] by blast
    moreover from ok ascii_Debug have "casefold h ''Debug'' = ''debug''"
      unfolding case_conversions_ok_def lower_Debug [symmetric] by blast
    ultimately show ?thesis by (simp only: conv)
  qed
  from supported conv stored on_ascii show ?thesis by blast
qed

theorem dotnet_configuration_canonical_witness:
  "case_conversions_ok example_host
   \<and> ascii ''release'' \<and> ascii ''RELEASE'' \<and> ascii ''dEBUG'' \<and> ascii ''Releases''
   \<and> dotnet_configuration example_host ''release'' = Inr ''Release''
   \<and> dotnet_configuration example_host ''RELEASE'' = Inr ''Release''
   \<and> dotnet_configuration example_host ''dEBUG'' = Inr ''Debug''
   \<and> dotnet_configuration example_host ''Releases'' = Inl ''Unknown configuration: Releases.''
   \<and> dotnet_configuration example_host (''Relea'' @ [CHR 0xC5, CHR 0xBF] @ ''e'') = Inr ''Release''
   \<and> configuration (projr (take_action example_host default_namespace (Opt_configuration ''RELEASE'')))
       = ''Release''"
proof -
  note conv = dotnet_configuration_canonical [THEN conjunct2, THEN conjunct1]
  note stored = dotnet_configuration_canonical [THEN conjunct2, THEN conjunct2, THEN conjunct1]
  note on_ascii = dotnet_configuration_canonical [THEN conjunct2, THEN conjunct2, THEN conjunct2, rule_format]
  have folds: "casefold example_host = example_casefold"
    by (simp add: example_host_def)
  have ok: "case_conversions_ok example_host"
    by (rule example_host_case_conversions_ok)
  have a: "ascii ''release''" "ascii ''RELEASE''" "ascii ''dEBUG''" "ascii ''Releases''"
    by (simp_all add: ascii_def)
  have 1: "dotnet_configuration example_host ''release'' = Inr ''Release''"
    using on_ascii [of example_host "''release''"] ok a by (simp add: ascii_lower_def)
  have 2: "dotnet_configuration example_host ''RELEASE'' = Inr ''Release''"
    using on_ascii [of example_host "''RELEASE''"] ok a by (simp add: ascii_lower_def)
  have 3: "dotnet_configuration example_host ''dEBUG'' = Inr ''Debug''"
    using on_ascii [of example_host "''dEBUG''"] ok a by (simp add: ascii_lower_def)
  have 4: "dotnet_configuration example_host ''Releases'' = Inl ''Unknown configuration: Releases.''"
    using on_ascii [of example_host "''Releases''"] ok a by (simp add: ascii_lower_def)
  have 5: "dotnet_configuration example_host (''Relea'' @ [CHR 0xC5, CHR 0xBF] @ ''e'') = Inr ''Release''"
    by (simp add: conv folds ascii_lower_def)
  have 6: "configuration (projr (take_action example_host default_namespace (Opt_configuration ''RELEASE'')))
       = ''Release''"
    by (simp only: stored 2) simp
  from ok a 1 2 3 4 5 6 show ?thesis by blast
qed

section \<open>Every computation follows its plan\<close>

text \<open>
  Each statement of the script follows the plan of its calls, and so does a sequence of
  statements and a loop; hence \<^verbatim>\<open>build\<close>, \<^verbatim>\<open>run\<close> and the body of \<^verbatim>\<open>__main\<close> do.
\<close>

lemma follows_planI:
  assumes "\<And>tr. \<exists>ext. snd (m tr) = tr @ ext \<and> prefix (calls ext) p \<and> all_returned (butlast ext)
        \<and> (case fst (m tr) of Inr _ \<Rightarrow> calls ext = p \<and> all_returned ext | Inl _ \<Rightarrow> True)"
  shows "follows_plan m p"
  using assms unfolding follows_plan_def by blast

lemma follows_extern: "follows_plan (extern h c) [c]"
  unfolding follows_plan_def extern_def calls_def all_returned_def
  by (auto split: option.splits)

lemma follows_log: "follows_plan (log r) [Log r]"
  unfolding follows_plan_def log_def calls_def all_returned_def by auto

lemma follows_skip: "follows_plan skip []"
  unfolding follows_plan_def skip_def calls_def all_returned_def by auto

lemma follows_raise: "follows_plan (raise e) p"
  unfolding follows_plan_def raise_def calls_def all_returned_def by auto

lemma follows_remove_directory: "follows_plan (remove_directory h path) [Remove_directory path]"
  unfolding follows_plan_def remove_directory_def extern_def calls_def all_returned_def
  by (auto split: option.splits)

lemma all_returned_append: "all_returned (xs @ ys) \<longleftrightarrow> all_returned xs \<and> all_returned ys"
  by (simp add: all_returned_def)

lemma calls_append: "calls (xs @ ys) = calls xs @ calls ys"
  by (simp add: calls_def)

lemma follows_and_then:
  assumes m: "follows_plan m p" and k: "follows_plan k q"
  shows "follows_plan (and_then m k) (p @ q)"
proof (rule follows_planI)
  fix tr
  from m obtain e1 where e1: "snd (m tr) = tr @ e1" "prefix (calls e1) p" "all_returned (butlast e1)"
      "case fst (m tr) of Inr _ \<Rightarrow> calls e1 = p \<and> all_returned e1 | Inl _ \<Rightarrow> True"
    unfolding follows_plan_def by blast
  show "\<exists>ext. snd (and_then m k tr) = tr @ ext \<and> prefix (calls ext) (p @ q) \<and> all_returned (butlast ext)
        \<and> (case fst (and_then m k tr) of Inr _ \<Rightarrow> calls ext = p @ q \<and> all_returned ext | Inl _ \<Rightarrow> True)"
  proof (cases "fst (m tr)")
    case (Inl e)
    then have "and_then m k tr = (Inl e, tr @ e1)"
      using e1(1) by (cases "m tr") (simp add: and_then_def)
    with e1 show ?thesis by (auto intro: exI [of _ e1])
  next
    case (Inr u)
    then have at: "and_then m k tr = k (tr @ e1)"
      using e1(1) by (cases "m tr") (simp add: and_then_def)
    from Inr e1 have c1: "calls e1 = p" "all_returned e1" by simp_all
    from k obtain e2 where e2: "snd (k (tr @ e1)) = (tr @ e1) @ e2" "prefix (calls e2) q"
        "all_returned (butlast e2)"
        "case fst (k (tr @ e1)) of Inr _ \<Rightarrow> calls e2 = q \<and> all_returned e2 | Inl _ \<Rightarrow> True"
      unfolding follows_plan_def by blast
    have bl: "all_returned (butlast (e1 @ e2))"
      using c1(2) e2(3) e1(3) by (cases "e2 = []") (simp_all add: butlast_append all_returned_append)
    show ?thesis
      apply (rule exI [of _ "e1 @ e2"])
      using at e2 c1 bl
      by (auto simp: calls_append all_returned_append split: sum.splits)
  qed
qed

lemma follows_for_each:
  assumes "\<And>x. follows_plan (body x) (pl x)"
  shows "follows_plan (for_each body xs) (concat (map pl xs))"
proof (induction xs)
  case Nil
  show ?case by (simp add: follows_skip)
next
  case (Cons x xs)
  show ?case using follows_and_then [OF assms [of x] Cons.IH] by simp
qed

lemma follows_header: "follows_plan (log_script_header message) (header_plan message)"
  unfolding log_script_header_def header_plan_def
  using follows_and_then [OF follows_log follows_and_then [OF follows_log follows_log]]
  by simp

lemma follows_clean:
  "follows_plan
     (if inc = ''no'' then
           and_then (log_script_header ''Removing packages, bin and obj folders.'')
             (let binary_folders =
                    [path_join h (get_repo_root_path h) ''packages'',
                     path_join h (working_directory h) ''bin'',
                     path_join h (working_directory h) ''obj'']
              in for_each (\<lambda>binary_folder. remove_directory h binary_folder) binary_folders)
         else skip) (clean_plan h inc)"
proof (cases "inc = ''no''")
  case True
  have "follows_plan (for_each (remove_directory h) (binary_folders h))
          (concat (map (\<lambda>p. [Remove_directory p]) (binary_folders h)))"
    by (rule follows_for_each) (rule follows_remove_directory)
  then have "follows_plan (for_each (remove_directory h) (binary_folders h))
          (map Remove_directory (binary_folders h))"
    by (simp add: binary_folders_def)
  from follows_and_then [OF follows_header this] True show ?thesis
    by (simp add: clean_plan_def binary_folders_def Let_def)
next
  case False
  then show ?thesis by (simp add: clean_plan_def follows_skip)
qed

lemma follows_build: "follows_plan (build h c fs inc v) (build_plan h c fs inc v)"
proof -
  have tail: "follows_plan
      (case fs of
        None \<Rightarrow> raise (Exception ''TypeError'')
      | Some fs' \<Rightarrow>
         (let build_title =
                ''Building .NET micro benchmarks for '' @ [CHR 0x27] @ str_join '' '' fs' @ [CHR 0x27]
          in and_then (log_script_header build_title)
                      (extern h (Build c fs' v))))
      (case fs of
          None \<Rightarrow> []
        | Some fs' \<Rightarrow>
           header_plan (''Building .NET micro benchmarks for '' @ [CHR 0x27] @ str_join '' '' fs' @ [CHR 0x27])
           @ [Build c fs' v])"
    by (cases fs) (simp_all add: follows_raise follows_and_then [OF follows_header follows_extern] Let_def)
  show ?thesis
    unfolding build_def build_plan_def Let_def
    by (intro follows_and_then follows_clean [unfolded Let_def] follows_header follows_extern tail [unfolded Let_def])
qed

lemma follows_run: "follows_plan (run h c f v extra) (run_plan c f v extra)"
  unfolding run_def run_plan_def
  by (intro follows_and_then follows_header follows_extern)

lemma follows_main_try: "follows_plan (main_try h opts) (main_plan h opts)"
proof -
  have runs: "follows_plan
        (case frameworks args of
               None \<Rightarrow> raise (Exception ''TypeError'')
             | Some fs \<Rightarrow>
                for_each
                  (\<lambda>framework. run h (configuration args) framework (verbose args) (run_args args))
                  fs)
        (case frameworks args of
          None \<Rightarrow> []
        | Some fs \<Rightarrow> concat (map (\<lambda>f. run_plan (configuration args) f (verbose args) (run_args args)) fs))"
    for args
    by (cases "frameworks args") (simp_all add: follows_raise follows_for_each follows_run)
  have rest: "follows_plan
       (case process_arguments h opts of
          Inl e \<Rightarrow> raise e
        | Inr args \<Rightarrow>
           and_then (extern h (Setup_loggers (verbose args)))
          (and_then (extern h (Dotnet_info (verbose args)))
          (and_then (build h (configuration args) (frameworks args) (incremental args) (verbose args))
            (case frameworks args of
               None \<Rightarrow> raise (Exception ''TypeError'')
             | Some fs \<Rightarrow>
                for_each
                  (\<lambda>framework. run h (configuration args) framework (verbose args) (run_args args))
                  fs))))
       (case process_arguments h opts of Inl e \<Rightarrow> [] | Inr args \<Rightarrow> args_plan h args)"
  proof (cases "process_arguments h opts")
    case (Inl e)
    then show ?thesis by (simp add: follows_raise)
  next
    case (Inr args)
    have "follows_plan
       (and_then (extern h (Setup_loggers (verbose args)))
          (and_then (extern h (Dotnet_info (verbose args)))
          (and_then (build h (configuration args) (frameworks args) (incremental args) (verbose args))
            (case frameworks args of
               None \<Rightarrow> raise (Exception ''TypeError'')
             | Some fs \<Rightarrow>
                for_each
                  (\<lambda>framework. run h (configuration args) framework (verbose args) (run_args args))
                  fs))))
        ([Setup_loggers (verbose args)] @ [Dotnet_info (verbose args)]
         @ build_plan h (configuration args) (frameworks args) (incremental args) (verbose args)
         @ (case frameworks args of
          None \<Rightarrow> []
        | Some fs \<Rightarrow> concat (map (\<lambda>f. run_plan (configuration args) f (verbose args) (run_args args)) fs)))"
      by (intro follows_and_then follows_extern follows_build runs)
    with Inr show ?thesis by (simp add: args_plan_def)
  qed
  from follows_and_then [OF follows_extern rest] show ?thesis
    by (simp add: main_try_def main_plan_def)
qed

section \<open>The trace of the entry point\<close>

text \<open>
  The trace of \<^verbatim>\<open>__main\<close> is a prefix of the plan, in which only the last call may have
  raised, followed by what the handler logs.
\<close>

lemma handler_trace:
  "\<exists>hl. snd (handler e tr) = tr @ hl
     \<and> list_all (\<lambda>entry. is_error_log (fst entry) \<and> snd entry = None) hl"
  by (cases e) (simp_all add: log_def skip_def and_then_def)

lemma main_trace:
  obtains ext hl where
    "snd (main h opts) = ext @ hl"
    "prefix (calls ext) (main_plan h opts)"
    "all_returned (butlast ext)"
    "list_all (\<lambda>entry. is_error_log (fst entry) \<and> snd entry = None) hl"
    "fst (main h opts) = 0 \<or> fst (main h opts) = 1"
    "fst (main h opts) = 0 \<Longrightarrow> calls ext = main_plan h opts \<and> all_returned ext \<and> hl = []"
    "fst (main h opts) = 1 \<Longrightarrow> \<exists>e. fst (main_try h opts []) = Inl e"
proof -
  from follows_main_try [of h opts] obtain ext where
    ext: "snd (main_try h opts []) = [] @ ext" "prefix (calls ext) (main_plan h opts)"
      "all_returned (butlast ext)"
      "case fst (main_try h opts []) of
         Inr _ \<Rightarrow> calls ext = main_plan h opts \<and> all_returned ext | Inl _ \<Rightarrow> True"
    unfolding follows_plan_def by blast
  show thesis
  proof (cases "fst (main_try h opts [])")
    case (Inl e)
    then have mt: "main_try h opts [] = (Inl e, ext)"
      using ext(1) by (cases "main_try h opts []") simp
    from handler_trace [of e ext] obtain hl where
      hl: "snd (handler e ext) = ext @ hl"
          "list_all (\<lambda>entry. is_error_log (fst entry) \<and> snd entry = None) hl"
      by blast
    have "main h opts = (1, ext @ hl)"
      by (simp add: main_def mt hl(1))
    with ext hl Inl show thesis by (intro that [of ext hl]) simp_all
  next
    case (Inr u)
    then have mt: "main_try h opts [] = (Inr u, ext)"
      using ext(1) by (cases "main_try h opts []") simp
    have "main h opts = (0, ext @ [])"
      by (simp add: main_def mt)
    with ext Inr show thesis by (intro that [of ext "[]"]) simp_all
  qed
qed

lemma calls_main_subset:
  assumes "c \<in> set (calls (snd (main h opts)))" "\<not> is_error_log c"
  shows "c \<in> set (main_plan h opts)"
proof -
  obtain ext hl where t: "snd (main h opts) = ext @ hl" "prefix (calls ext) (main_plan h opts)"
    "list_all (\<lambda>entry. is_error_log (fst entry) \<and> snd entry = None) hl"
    by (rule main_trace [of h opts]) blast
  from assms t(1) have "c \<in> set (calls ext) \<or> c \<in> set (calls hl)"
    by (simp add: calls_def)
  moreover have "c \<notin> set (calls hl)"
    using t(3) assms(2) by (auto simp: calls_def list_all_iff)
  ultimately have "c \<in> set (calls ext)" by blast
  with t(2) show ?thesis by (auto simp: prefix_def)
qed

lemma run_in_main_plan:
  assumes "Run c f v extra \<in> set (main_plan h opts)"
  shows "\<exists>args fs. process_arguments h opts = Inr args \<and> frameworks args = Some fs \<and> f \<in> set fs
           \<and> c = configuration args \<and> v = verbose args \<and> extra = run_args args"
proof (cases "process_arguments h opts")
  case (Inl e)
  with assms show ?thesis by (simp add: main_plan_def)
next
  case (Inr args)
  show ?thesis
  proof (cases "frameworks args")
    case None
    with assms Inr show ?thesis
      by (auto simp: main_plan_def args_plan_def build_plan_def clean_plan_def header_plan_def
            split: if_splits)
  next
    case (Some fs)
    with assms Inr have "Run c f v extra \<in>
        (\<Union>f\<in>set fs. set (run_plan (configuration args) f (verbose args) (run_args args)))"
      by (auto simp: main_plan_def args_plan_def build_plan_def clean_plan_def header_plan_def
            split: if_splits)
    then have "f \<in> set fs \<and> c = configuration args \<and> v = verbose args \<and> extra = run_args args"
      by (auto simp: run_plan_def header_plan_def)
    with Inr Some show ?thesis by simp
  qed
qed

lemma run_in_main:
  assumes "Run c f v extra \<in> set (calls (snd (main h opts)))"
  shows "\<exists>args fs. process_arguments h opts = Inr args \<and> frameworks args = Some fs \<and> f \<in> set fs
           \<and> c = configuration args \<and> v = verbose args \<and> extra = run_args args"
  using calls_main_subset [OF assms] run_in_main_plan by simp

section \<open>What parsing guarantees\<close>

text \<open>
  The frameworks of a parsed namespace are those stored by the last \<open>--frameworks\<close> option,
  made from supported values; the optional strings and lists that are set are not empty.
\<close>

lemma check_values_Inr: "check_values ch vs = Inr vs' \<Longrightarrow> vs' = vs \<and> set vs \<subseteq> set ch"
  by (induction vs arbitrary: vs') (auto simp: check_value_def split: if_splits sum.splits)

lemma check_values_ok: "set vs \<subseteq> set ch \<Longrightarrow> check_values ch vs = Inr vs"
  by (induction vs) (auto simp: check_value_def)

lemma action_call_ok:
  "vs \<noteq> [] \<Longrightarrow> set vs \<subseteq> set (get_supported_target_frameworks h) \<Longrightarrow>
   TargetFrameworkAction_call h ns vs = Inr (ns\<lparr>frameworks := Some (list_set h vs)\<rparr>)"
  by (auto simp: TargetFrameworkAction_call_def Let_def filter_empty_conv)

lemma take_action_frameworks_ok:
  "vs \<noteq> [] \<Longrightarrow> set vs \<subseteq> set (get_supported_target_frameworks h) \<Longrightarrow>
   take_action h ns (Opt_frameworks vs) = Inr (ns\<lparr>frameworks := Some (list_set h vs)\<rparr>)"
  by (simp add: check_values_ok action_call_ok)

lemma take_action_frameworks_Inr:
  assumes "take_action h ns (Opt_frameworks vs) = Inr ns'"
  shows "vs \<noteq> [] \<and> set vs \<subseteq> set (get_supported_target_frameworks h)
         \<and> ns' = ns\<lparr>frameworks := Some (list_set h vs)\<rparr>"
proof -
  from assms have ne: "vs \<noteq> []" by (auto split: if_splits)
  with assms obtain vs' where "check_values (get_supported_target_frameworks h) vs = Inr vs'"
    by (auto split: sum.splits)
  then have sub: "set vs \<subseteq> set (get_supported_target_frameworks h)"
    using check_values_Inr by blast
  from assms take_action_frameworks_ok [OF ne sub, of ns] ne sub show ?thesis by simp
qed

lemma take_action_other:
  assumes "take_action h ns opt = Inr ns'" "\<not> is_frameworks opt"
  shows "frameworks ns' = frameworks ns"
proof (cases opt)
  case (Opt_configuration s)
  with assms show ?thesis
    by (cases "dotnet_configuration h s"; cases "check_value get_supported_configurations (projr (dotnet_configuration h s))")
       auto
qed (use assms in \<open>auto split: sum.splits if_splits\<close>)

lemma take_actions_Cons_Inr:
  assumes "take_actions h ns (opt # opts) = Inr ns'"
  obtains ns1 where "take_action h ns opt = Inr ns1" "take_actions h ns1 opts = Inr ns'"
  using assms by (cases "take_action h ns opt") simp_all

lemma take_actions_other:
  "take_actions h ns opts = Inr ns' \<Longrightarrow> \<not> list_ex is_frameworks opts \<Longrightarrow>
   frameworks ns' = frameworks ns"
proof (induction opts arbitrary: ns)
  case Nil
  then show ?case by simp
next
  case (Cons opt opts)
  from Cons.prems(1) obtain ns1 where s1: "take_action h ns opt = Inr ns1"
      and s2: "take_actions h ns1 opts = Inr ns'"
    by (rule take_actions_Cons_Inr)
  from Cons.prems(2) have "\<not> is_frameworks opt" "\<not> list_ex is_frameworks opts" by simp_all
  with take_action_other [OF s1] Cons.IH [OF s2] show ?case by simp
qed

lemma take_actions_append:
  "take_actions h ns (xs @ ys) =
     (case take_actions h ns xs of Inl e \<Rightarrow> Inl e | Inr ns' \<Rightarrow> take_actions h ns' ys)"
  by (induction xs arbitrary: ns) (auto split: sum.splits)

lemma take_actions_stored:
  "take_actions h ns opts = Inr ns' \<Longrightarrow> frameworks_stored h ns \<or> list_ex is_frameworks opts \<Longrightarrow>
   frameworks_stored h ns'"
proof (induction opts arbitrary: ns)
  case Nil
  then show ?case by simp
next
  case (Cons opt opts)
  from Cons.prems(1) obtain ns1 where s1: "take_action h ns opt = Inr ns1"
      and s2: "take_actions h ns1 opts = Inr ns'"
    by (rule take_actions_Cons_Inr)
  have "frameworks_stored h ns1 \<or> list_ex is_frameworks opts"
  proof (cases "is_frameworks opt")
    case True
    then obtain vs where opt: "opt = Opt_frameworks vs" by (cases opt) simp_all
    from take_action_frameworks_Inr [OF s1 [unfolded opt]]
    have "vs \<noteq> []" "set vs \<subseteq> set (get_supported_target_frameworks h)"
         "frameworks ns1 = Some (list_set h vs)"
      by simp_all
    then have "frameworks_stored h ns1"
      unfolding frameworks_stored_def by blast
    then show ?thesis ..
  next
    case False
    with s1 have "frameworks ns1 = frameworks ns" by (rule take_action_other)
    with Cons.prems(2) False show ?thesis
      by (simp add: frameworks_stored_def)
  qed
  with s2 show ?case by (rule Cons.IH)
qed

lemma process_arguments_stored:
  assumes "process_arguments h opts = Inr args"
  shows "frameworks_stored h args"
proof -
  from assms have "take_actions h default_namespace opts = Inr args" "list_ex is_frameworks opts"
    by (auto simp: process_arguments_def parse_args_def split: sum.splits if_splits)
  then show ?thesis using take_actions_stored by blast
qed

lemma take_action_validated_case:
  assumes "validated ns" "\<not> isfile h []"
  shows "case take_action h ns opt of Inl e \<Rightarrow> True | Inr ns' \<Rightarrow> validated ns'"
proof (cases opt)
  case (Opt_configuration s)
  with assms show ?thesis by (simp add: validated_def split: sum.splits)
next
  case (Opt_frameworks vs)
  with assms show ?thesis
    by (simp add: validated_def TargetFrameworkAction_call_def Let_def split: sum.splits)
next
  case (Opt_incremental s)
  with assms show ?thesis by (simp add: validated_def split: sum.splits)
next
  case (Opt_category s)
  with assms show ?thesis
    by (auto simp add: validated_def check_value_def split: sum.splits if_splits)
next
  case (Opt_corerun p)
  with assms show ?thesis
    by (auto simp add: validated_def valid_file_path_def Let_def split: sum.splits if_splits)
next
  case (Opt_cli p)
  with assms show ?thesis
    by (auto simp add: validated_def valid_file_path_def Let_def split: sum.splits if_splits)
next
  case (Opt_bdn_arguments s)
  with assms show ?thesis by (cases "get_bdn_arguments h s") (simp_all add: validated_def)
qed (use assms in \<open>simp_all add: validated_def\<close>)

lemma take_action_validated:
  assumes "take_action h ns opt = Inr ns'" "\<not> isfile h []" "validated ns"
  shows "validated ns'"
  using take_action_validated_case [OF assms(3) assms(2), of opt] assms(1) by simp

lemma take_actions_validated:
  "take_actions h ns opts = Inr ns' \<Longrightarrow> \<not> isfile h [] \<Longrightarrow> validated ns \<Longrightarrow> validated ns'"
proof (induction opts arbitrary: ns)
  case Nil
  then show ?case by simp
next
  case (Cons opt opts)
  from Cons.prems(1) obtain ns1 where s1: "take_action h ns opt = Inr ns1"
      and s2: "take_actions h ns1 opts = Inr ns'"
    by (rule take_actions_Cons_Inr)
  from take_action_validated [OF s1 Cons.prems(2) Cons.prems(3)] Cons.IH [OF s2 Cons.prems(2)]
  show ?case by simp
qed

lemma process_arguments_validated:
  assumes "process_arguments h opts = Inr args" "\<not> isfile h []"
  shows "validated args"
proof -
  from assms have "take_actions h default_namespace opts = Inr args"
    by (auto simp: process_arguments_def parse_args_def split: sum.splits if_splits)
  moreover have "validated default_namespace" by (simp add: validated_def default_namespace_def)
  ultimately show ?thesis using take_actions_validated assms(2) by blast
qed

section \<open>The arguments of each run\<close>

text \<open>The definitions that evaluate the script on a given host and command line.\<close>

lemmas eval_defs = and_then_def extern_def log_def skip_def raise_def remove_directory_def
  log_script_header_def build_def run_def main_try_def main_def process_arguments_def parse_args_def
  check_value_def TargetFrameworkAction_call_def get_supported_target_frameworks_def
  get_framework_channel_map_def list_set_def default_namespace_def get_supported_configurations_def
  run_args_def truthy_def working_directory_def Let_def calls_def valid_file_path_def
  dotnet_configuration_def ascii_lower_def

lemma bdn_example: "get_bdn_arguments h ''--iterations 5'' = Inr [''--iterations'', ''5'']"
  by (simp add: get_bdn_arguments_def reader_next_def parse_reset_def parse_process_char_def
        start_field_def parse_add_char_def parse_save_field_def set_state_def field_limit_def
        continuation_def code_points_def
        LF_def CR_def NUL_def quotechar_def delimiter_def)

lemma run_args_validated:
  assumes "validated args"
  shows "run_args args =
     ''--'' # (case category args of None \<Rightarrow> [] | Some x \<Rightarrow> [''--allCategories'', x])
       @ (case corerun args of None \<Rightarrow> [] | Some p \<Rightarrow> [''--coreRun'', p])
       @ (case cli args of None \<Rightarrow> [] | Some p \<Rightarrow> [''--cli'', p])
       @ (if enable_pmc args
          then [''--counters'', ''BranchMispredictions+CacheMisses+InstructionRetired'']
          else [])
       @ (case filter_arg args of None \<Rightarrow> [] | Some ps \<Rightarrow> ''--filter'' # ps)
       @ (case bdn_arguments args of None \<Rightarrow> [] | Some ts \<Rightarrow> ts)"
  using assms
  by (cases "category args"; cases "corerun args"; cases "cli args"; cases "filter_arg args";
      cases "bdn_arguments args")
     (simp_all add: run_args_def validated_def truthy_def Let_def)

lemma run_args_head: "\<exists>rest. run_args args = ''--'' # rest"
  by (simp add: run_args_def Let_def)

lemma run_args_bare:
  assumes "category args = None" "corerun args = None" "cli args = None" "\<not> enable_pmc args"
    "filter_arg args = None" "bdn_arguments args = None"
  shows "run_args args = [''--'']"
  using assms by (simp add: run_args_def truthy_def Let_def)

text \<open>
  C1. Once the command line has been parsed into validated options, every call of
  \<open>run\<close> that the script makes receives, after the separator \<open>--\<close>, the extra arguments
  in this order: the category flag and its value if a category is set, the flag and path
  of the alternate runtime if set, the flag and path of the alternate tool if set, the
  counter flag with its fixed payload if hardware counters are on, one filter flag followed
  by all patterns if filters are set, and last the pass-through tokens as they were
  tokenized. The host is one on which the empty path is not a file.
\<close>

theorem run_arguments_in_fixed_order:
  assumes "process_arguments h opts = Inr args"
    and "\<not> isfile h []"
    and "Run c f v extra \<in> set (calls (snd (main h opts)))"
  shows "extra =
     ''--'' # (case category args of None \<Rightarrow> [] | Some x \<Rightarrow> [''--allCategories'', x])
       @ (case corerun args of None \<Rightarrow> [] | Some p \<Rightarrow> [''--coreRun'', p])
       @ (case cli args of None \<Rightarrow> [] | Some p \<Rightarrow> [''--cli'', p])
       @ (if enable_pmc args
          then [''--counters'', ''BranchMispredictions+CacheMisses+InstructionRetired'']
          else [])
       @ (case filter_arg args of None \<Rightarrow> [] | Some ps \<Rightarrow> ''--filter'' # ps)
       @ (case bdn_arguments args of None \<Rightarrow> [] | Some ts \<Rightarrow> ts)"
proof -
  from run_in_main [OF assms(3)] assms(1) have "extra = run_args args" by auto
  moreover from assms(1,2) have "validated args" by (rule process_arguments_validated)
  ultimately show ?thesis by (simp only: run_args_validated)
qed

theorem run_arguments_in_fixed_order_witness:
  "process_arguments example_host
      [Opt_category ''coreclr'', Opt_corerun ''/opt/corerun'', Opt_filter [''*Sort*'', ''*Hash*''],
       Opt_enable_hardware_counters, Opt_bdn_arguments ''--iterations 5'',
       Opt_frameworks [''netcoreapp3.0'']]
     = Inr \<lparr>verbose = False, configuration = ''Release'', frameworks = Some [''netcoreapp3.0''],
            incremental = ''yes'', enable_pmc = True, category = Some ''coreclr'',
            filter_arg = Some [''*Sort*'', ''*Hash*''], corerun = Some ''/opt/corerun'', cli = None,
            bdn_arguments = Some [''--iterations'', ''5'']\<rparr>
   \<and> \<not> isfile example_host []
   \<and> Run ''Release'' ''netcoreapp3.0'' False
        [''--'', ''--allCategories'', ''coreclr'', ''--coreRun'', ''/opt/corerun'', ''--counters'',
         ''BranchMispredictions+CacheMisses+InstructionRetired'', ''--filter'', ''*Sort*'', ''*Hash*'',
         ''--iterations'', ''5'']
       \<in> set (calls (snd (main example_host
           [Opt_category ''coreclr'', Opt_corerun ''/opt/corerun'', Opt_filter [''*Sort*'', ''*Hash*''],
            Opt_enable_hardware_counters, Opt_bdn_arguments ''--iterations 5'',
            Opt_frameworks [''netcoreapp3.0'']])))"
proof -
  let ?opts = "[Opt_category ''coreclr'', Opt_corerun ''/opt/corerun'', Opt_filter [''*Sort*'', ''*Hash*''],
       Opt_enable_hardware_counters, Opt_bdn_arguments ''--iterations 5'',
       Opt_frameworks [''netcoreapp3.0'']]"
  have parsed: "process_arguments example_host ?opts
     = Inr \<lparr>verbose = False, configuration = ''Release'', frameworks = Some [''netcoreapp3.0''],
            incremental = ''yes'', enable_pmc = True, category = Some ''coreclr'',
            filter_arg = Some [''*Sort*'', ''*Hash*''], corerun = Some ''/opt/corerun'', cli = None,
            bdn_arguments = Some [''--iterations'', ''5'']\<rparr>"
    by (simp add: eval_defs example_host_def bdn_example)
  have nofile: "\<not> isfile example_host []"
    by (simp add: example_host_def)
  have "\<exists>extra. Run ''Release'' ''netcoreapp3.0'' False extra \<in> set (calls (snd (main example_host ?opts)))"
    by (simp add: eval_defs example_host_def bdn_example)
  then obtain extra where
    run: "Run ''Release'' ''netcoreapp3.0'' False extra \<in> set (calls (snd (main example_host ?opts)))"
    by blast
  from run_arguments_in_fixed_order [OF parsed nofile run]
  have "extra = [''--'', ''--allCategories'', ''coreclr'', ''--coreRun'', ''/opt/corerun'', ''--counters'',
         ''BranchMispredictions+CacheMisses+InstructionRetired'', ''--filter'', ''*Sort*'', ''*Hash*'',
         ''--iterations'', ''5'']"
    by simp
  with run parsed nofile show ?thesis by blast
qed

text \<open>
  C10. The extra arguments of every call of \<open>run\<close> that the script makes begin with the
  token \<open>--\<close>; when no optional flag is set they are this token alone.
\<close>

theorem run_arguments_start_with_separator:
  assumes "Run c f v extra \<in> set (calls (snd (main h opts)))"
  shows "(\<exists>rest. extra = ''--'' # rest)
     \<and> (\<forall>args. process_arguments h opts = Inr args \<and> category args = None \<and> corerun args = None
            \<and> cli args = None \<and> \<not> enable_pmc args \<and> filter_arg args = None
            \<and> bdn_arguments args = None
          \<longrightarrow> extra = [''--''])"
proof -
  from run_in_main [OF assms] obtain args where
    args: "process_arguments h opts = Inr args" "extra = run_args args"
    by blast
  from args(2) run_args_head [of args] have "\<exists>rest. extra = ''--'' # rest" by simp
  moreover from args run_args_bare have
    "\<forall>args'. process_arguments h opts = Inr args' \<and> category args' = None \<and> corerun args' = None
        \<and> cli args' = None \<and> \<not> enable_pmc args' \<and> filter_arg args' = None
        \<and> bdn_arguments args' = None
      \<longrightarrow> extra = [''--'']"
    by auto
  ultimately show ?thesis by blast
qed

theorem run_arguments_start_with_separator_witness:
  "Run ''Release'' ''netcoreapp3.0'' False [''--'']
     \<in> set (calls (snd (main example_host [Opt_frameworks [''netcoreapp3.0'']])))
   \<and> Run ''Debug'' ''netcoreapp2.1'' True [''--'', ''--cli'', ''/opt/corerun'']
     \<in> set (calls (snd (main example_host
          [Opt_verbose, Opt_configuration ''debug'', Opt_cli ''/opt/corerun'',
           Opt_frameworks [''netcoreapp2.1'']])))"
proof -
  have "\<exists>extra. Run ''Release'' ''netcoreapp3.0'' False extra
     \<in> set (calls (snd (main example_host [Opt_frameworks [''netcoreapp3.0'']])))"
    by (simp add: eval_defs example_host_def)
  then obtain e1 where
    r1: "Run ''Release'' ''netcoreapp3.0'' False e1
     \<in> set (calls (snd (main example_host [Opt_frameworks [''netcoreapp3.0'']])))"
    by blast
  have p1: "process_arguments example_host [Opt_frameworks [''netcoreapp3.0'']]
     = Inr (default_namespace\<lparr>frameworks := Some [''netcoreapp3.0'']\<rparr>)"
    by (simp add: eval_defs example_host_def)
  from run_arguments_start_with_separator [OF r1] p1 have "e1 = [''--'']"
    by (simp add: default_namespace_def)
  moreover
  have r2: "Run ''Debug'' ''netcoreapp2.1'' True [''--'', ''--cli'', ''/opt/corerun'']
     \<in> set (calls (snd (main example_host
          [Opt_verbose, Opt_configuration ''debug'', Opt_cli ''/opt/corerun'',
           Opt_frameworks [''netcoreapp2.1'']])))"
    by (simp add: eval_defs example_host_def)
  ultimately show ?thesis using r1 by simp
qed

section \<open>One build, one run for each target\<close>

lemma main_success:
  assumes "fst (main h opts) = 0"
  obtains args where "process_arguments h opts = Inr args"
    "calls (snd (main h opts)) = Validate_supported_runtime # args_plan h args"
    "all_returned (snd (main h opts))"
proof -
  obtain ext hl where t: "snd (main h opts) = ext @ hl"
    "fst (main h opts) = 0 \<Longrightarrow> calls ext = main_plan h opts \<and> all_returned ext \<and> hl = []"
    by (rule main_trace [of h opts]) blast
  from t(2) [OF assms] t(1) have tr: "calls (snd (main h opts)) = main_plan h opts"
    "all_returned (snd (main h opts))"
    by simp_all
  show thesis
  proof (cases "process_arguments h opts")
    case (Inl e)
    then have "fst (main h opts) = 1"
      by (simp add: main_def main_try_def and_then_def raise_def split: prod.splits sum.splits)
    with assms show thesis by simp
  next
    case (Inr args)
    with tr show thesis by (intro that [of args]) (simp_all add: main_plan_def)
  qed
qed

lemma filter_run_plans:
  "filter is_run (concat (map (\<lambda>f. run_plan c f v a) fs)) = map (\<lambda>f. Run c f v a) fs"
  by (induction fs) (simp_all add: run_plan_def header_plan_def)

lemma filter_build_run_plans:
  "filter is_build (concat (map (\<lambda>f. run_plan c f v a) fs)) = []"
  by (induction fs) (simp_all add: run_plan_def header_plan_def)

lemma run_target_run_plans:
  "concat (map run_target (concat (map (\<lambda>f. run_plan c f v a) fs))) = fs"
  by (induction fs) (simp_all add: run_plan_def header_plan_def)

lemma filter_build_plan:
  "filter is_build (build_plan h c (Some fs) inc v) = [Build c fs v]"
  "filter is_run (build_plan h c (Some fs) inc v) = []"
  "concat (map run_target (build_plan h c (Some fs) inc v)) = []"
  by (auto simp add: build_plan_def clean_plan_def header_plan_def binary_folders_def)

lemma stored_distinct:
  assumes "frameworks_stored h args" "set_order_ok h"
  obtains fs where "frameworks args = Some fs" "fs \<noteq> []" "distinct fs"
    "set fs \<subseteq> set (get_supported_target_frameworks h)"
proof -
  from assms(1) obtain vs where vs: "vs \<noteq> []" "set vs \<subseteq> set (get_supported_target_frameworks h)"
    "frameworks args = Some (list_set h vs)"
    unfolding frameworks_stored_def by blast
  from assms(2) have d: "distinct (list_set h vs)" "set (list_set h vs) = set vs"
    by (simp_all add: set_order_ok_def list_set_def)
  from d(2) vs(1) have "list_set h vs \<noteq> []" by auto
  with vs d show thesis by (intro that [of "list_set h vs"]) simp_all
qed

text \<open>
  C6. When the script ends with exit code 0 on a host whose sets hold each element once,
  the command line was parsed into options whose frameworks are a non-empty list without
  duplicates; the trace holds exactly one call of the build operation, with the
  configuration and all the frameworks of the options, and the calls of the run operation
  are one for each framework, in the order of that list.
\<close>

theorem build_once_run_once_per_target:
  assumes "fst (main h opts) = 0" and "set_order_ok h"
  shows "\<exists>args fs. process_arguments h opts = Inr args \<and> frameworks args = Some fs
           \<and> fs \<noteq> [] \<and> distinct fs
           \<and> filter is_build (calls (snd (main h opts)))
               = [Build (configuration args) fs (verbose args)]
           \<and> filter is_run (calls (snd (main h opts)))
               = map (\<lambda>f. Run (configuration args) f (verbose args) (run_args args)) fs"
proof -
  from assms(1) obtain args where args: "process_arguments h opts = Inr args"
    "calls (snd (main h opts)) = Validate_supported_runtime # args_plan h args"
    by (rule main_success)
  from args(1) have "frameworks_stored h args" by (rule process_arguments_stored)
  then obtain fs where fs: "frameworks args = Some fs" "fs \<noteq> []" "distinct fs"
    using assms(2) by (rule stored_distinct)
  have "filter is_build (calls (snd (main h opts))) = [Build (configuration args) fs (verbose args)]"
    by (simp add: args(2) args_plan_def fs(1) filter_build_plan filter_build_run_plans)
  moreover have "filter is_run (calls (snd (main h opts)))
      = map (\<lambda>f. Run (configuration args) f (verbose args) (run_args args)) fs"
    by (simp add: args(2) args_plan_def fs(1) filter_build_plan filter_run_plans)
  ultimately show ?thesis using args(1) fs by blast
qed

lemma example_set_order_ok: "set_order_ok example_host"
  by (simp add: set_order_ok_def example_host_def)

theorem build_once_run_once_per_target_witness:
  "fst (main example_host [Opt_frameworks [''netcoreapp3.0'', ''netcoreapp2.1'', ''netcoreapp3.0'']]) = 0
   \<and> set_order_ok example_host
   \<and> filter is_build (calls (snd (main example_host
         [Opt_frameworks [''netcoreapp3.0'', ''netcoreapp2.1'', ''netcoreapp3.0'']])))
       = [Build ''Release'' [''netcoreapp3.0'', ''netcoreapp2.1''] False]
   \<and> filter is_run (calls (snd (main example_host
         [Opt_frameworks [''netcoreapp3.0'', ''netcoreapp2.1'', ''netcoreapp3.0'']])))
       = [Run ''Release'' ''netcoreapp3.0'' False [''--''],
          Run ''Release'' ''netcoreapp2.1'' False [''--'']]"
proof -
  let ?opts = "[Opt_frameworks [''netcoreapp3.0'', ''netcoreapp2.1'', ''netcoreapp3.0'']]"
  have ok: "fst (main example_host ?opts) = 0"
    by (simp add: eval_defs example_host_def)
  have parsed: "process_arguments example_host ?opts
      = Inr (default_namespace\<lparr>frameworks := Some [''netcoreapp3.0'', ''netcoreapp2.1'']\<rparr>)"
    by (simp add: eval_defs example_host_def)
  from build_once_run_once_per_target [OF ok example_set_order_ok] parsed
  have "filter is_build (calls (snd (main example_host ?opts)))
       = [Build ''Release'' [''netcoreapp3.0'', ''netcoreapp2.1''] False]
     \<and> filter is_run (calls (snd (main example_host ?opts)))
       = [Run ''Release'' ''netcoreapp3.0'' False [''--''],
          Run ''Release'' ''netcoreapp2.1'' False [''--'']]"
    by (simp add: default_namespace_def get_supported_configurations_def run_args_def truthy_def Let_def)
  with ok example_set_order_ok show ?thesis by blast
qed

text \<open>The options after the last \<open>--frameworks\<close> leave the stored frameworks alone.\<close>

lemma process_arguments_last_frameworks:
  assumes "process_arguments h (pre @ Opt_frameworks values # post) = Inr args"
    and "\<not> list_ex is_frameworks post"
  shows "frameworks args = Some (list_set h values)"
proof -
  from assms(1) have ta: "take_actions h default_namespace (pre @ Opt_frameworks values # post) = Inr args"
    by (simp add: process_arguments_def parse_args_def split: sum.splits if_splits)
  then obtain ns1 where n1: "take_actions h default_namespace pre = Inr ns1"
      and r1: "take_actions h ns1 (Opt_frameworks values # post) = Inr args"
    by (cases "take_actions h default_namespace pre") (simp_all add: take_actions_append)
  from r1 obtain ns2 where n2: "take_action h ns1 (Opt_frameworks values) = Inr ns2"
      and r2: "take_actions h ns2 post = Inr args"
    by (rule take_actions_Cons_Inr)
  from take_action_frameworks_Inr [OF n2] have "frameworks ns2 = Some (list_set h values)" by simp
  with take_actions_other [OF r2 assms(2)] show ?thesis by simp
qed

text \<open>
  C2, amended. On a host whose sets hold each element once, a non-empty list of supported
  identifiers, with or without duplicates, passes validation; the stored list holds each
  identifier of the input once; and when the script ends with exit code 0 the run
  operation was called once for each stored identifier, in the order of the stored list,
  which is the order in which the interpreter iterates over the set made of the input.
  The input list is the one of the last \<open>--frameworks\<close> option of the command line.
\<close>

theorem targets_deduplicated_and_run_in_set_order:
  assumes "set_order_ok h" and "values \<noteq> []"
    and "set values \<subseteq> set (get_supported_target_frameworks h)"
  shows "take_action h ns (Opt_frameworks values)
           = Inr (ns\<lparr>frameworks := Some (list_set h values)\<rparr>)
     \<and> distinct (list_set h values) \<and> set (list_set h values) = set values
     \<and> (\<not> list_ex is_frameworks post \<and> fst (main h (pre @ Opt_frameworks values # post)) = 0
          \<longrightarrow> run_targets (snd (main h (pre @ Opt_frameworks values # post))) = list_set h values)"
proof -
  have stored: "take_action h ns (Opt_frameworks values)
           = Inr (ns\<lparr>frameworks := Some (list_set h values)\<rparr>)"
    using assms(2,3) by (rule take_action_frameworks_ok)
  from assms(1) have once: "distinct (list_set h values)" "set (list_set h values) = set values"
    by (simp_all add: set_order_ok_def list_set_def)
  have runs: "run_targets (snd (main h (pre @ Opt_frameworks values # post))) = list_set h values"
    if nf: "\<not> list_ex is_frameworks post"
      and ok: "fst (main h (pre @ Opt_frameworks values # post)) = 0"
  proof -
    from ok obtain args where
      args: "process_arguments h (pre @ Opt_frameworks values # post) = Inr args"
        "calls (snd (main h (pre @ Opt_frameworks values # post)))
           = Validate_supported_runtime # args_plan h args"
      by (rule main_success)
    from process_arguments_last_frameworks [OF args(1) nf]
    have fs: "frameworks args = Some (list_set h values)" .
    show ?thesis
      by (simp add: run_targets_def args(2) args_plan_def fs filter_build_plan run_target_run_plans)
  qed
  from stored once runs show ?thesis by blast
qed

theorem targets_deduplicated_and_run_in_set_order_witness:
  "set_order_ok example_host
   \<and> set [''netcoreapp3.0'', ''netcoreapp2.2'', ''netcoreapp2.1'', ''netcoreapp3.0'']
       \<subseteq> set (get_supported_target_frameworks example_host)
   \<and> fst (main example_host
        [Opt_frameworks [''netcoreapp3.0'', ''netcoreapp2.2'', ''netcoreapp2.1'', ''netcoreapp3.0'']]) = 0
   \<and> run_targets (snd (main example_host
        [Opt_frameworks [''netcoreapp3.0'', ''netcoreapp2.2'', ''netcoreapp2.1'', ''netcoreapp3.0'']]))
      = [''netcoreapp3.0'', ''netcoreapp2.1'', ''netcoreapp2.2'']"
proof -
  let ?input = "[''netcoreapp3.0'', ''netcoreapp2.2'', ''netcoreapp2.1'', ''netcoreapp3.0'']"
  have ne: "?input \<noteq> []" by simp
  have sub: "set ?input \<subseteq> set (get_supported_target_frameworks example_host)"
    by (simp add: get_supported_target_frameworks_def get_framework_channel_map_def example_host_def)
  have ok: "fst (main example_host ([] @ Opt_frameworks ?input # [])) = 0"
    by (simp add: eval_defs example_host_def)
  from targets_deduplicated_and_run_in_set_order [OF example_set_order_ok ne sub, of _ "[]" "[]"] ok
  have "run_targets (snd (main example_host ([] @ Opt_frameworks ?input # []))) = list_set example_host ?input"
    by simp
  then have "run_targets (snd (main example_host [Opt_frameworks ?input]))
      = [''netcoreapp3.0'', ''netcoreapp2.1'', ''netcoreapp2.2'']"
    by (simp add: list_set_def example_host_def)
  with example_set_order_ok sub ok show ?thesis by simp
qed

text \<open>
  On the example host the set made of \<open>netcoreapp3.0\<close>, \<open>netcoreapp2.2\<close> is iterated in the
  other order, and the runs follow it: not the order of first occurrence.
\<close>

theorem run_order_first_occurrence_counterexample:
  "set_order_ok example_host
   \<and> set [''netcoreapp3.0'', ''netcoreapp2.2''] \<subseteq> set (get_supported_target_frameworks example_host)
   \<and> fst (main example_host [Opt_frameworks [''netcoreapp3.0'', ''netcoreapp2.2'']]) = 0
   \<and> first_occurrence_order [''netcoreapp3.0'', ''netcoreapp2.2'']
       = [''netcoreapp3.0'', ''netcoreapp2.2'']
   \<and> run_targets (snd (main example_host [Opt_frameworks [''netcoreapp3.0'', ''netcoreapp2.2'']]))
       = [''netcoreapp2.2'', ''netcoreapp3.0'']
   \<and> run_targets (snd (main example_host [Opt_frameworks [''netcoreapp3.0'', ''netcoreapp2.2'']]))
       \<noteq> first_occurrence_order [''netcoreapp3.0'', ''netcoreapp2.2'']"
proof -
  have "run_targets (snd (main example_host [Opt_frameworks [''netcoreapp3.0'', ''netcoreapp2.2'']]))
       = [''netcoreapp2.2'', ''netcoreapp3.0'']"
    by (simp add: eval_defs example_host_def run_targets_def)
  moreover have "fst (main example_host [Opt_frameworks [''netcoreapp3.0'', ''netcoreapp2.2'']]) = 0"
    by (simp add: eval_defs example_host_def)
  moreover have "set [''netcoreapp3.0'', ''netcoreapp2.2''] \<subseteq> set (get_supported_target_frameworks example_host)"
    by (simp add: get_supported_target_frameworks_def get_framework_channel_map_def example_host_def)
  moreover have "first_occurrence_order [''netcoreapp3.0'', ''netcoreapp2.2'']
       = [''netcoreapp3.0'', ''netcoreapp2.2'']"
    by (simp add: first_occurrence_order_def)
  ultimately show ?thesis using example_set_order_ok by simp
qed

section \<open>Exit codes\<close>

lemma main_exit_code_on_raise:
  assumes "fst (main_try h opts []) = Inl e"
  shows "fst (main h opts) = 1"
  using assms by (cases "main_try h opts []") (simp add: main_def)

lemma help_exits: "process_arguments h (Opt_help # opts) = Inl (SystemExit 0)"
  by (simp add: process_arguments_def parse_args_def)

text \<open>
  C4, amended. A request for help makes the parser exit with status 0. When the parser
  exits, the script logs nothing at error severity and returns exit code 1: the trace holds
  the runtime check alone. Exit code 1 is also what every exception raised in the body of
  the entry point gives, so an early exit of the parser is not told apart from a failure.
\<close>

theorem parser_exit_gives_exit_code_1:
  "process_arguments h (Opt_help # rest) = Inl (SystemExit 0)
   \<and> (process_arguments h opts = Inl (SystemExit code)
        \<and> outcome h [] Validate_supported_runtime = None
      \<longrightarrow> main h opts = (1, [(Validate_supported_runtime, None)]))
   \<and> (fst (main_try h opts []) = Inl e \<longrightarrow> fst (main h opts) = 1)"
proof -
  have "main h opts = (1, [(Validate_supported_runtime, None)])"
    if "process_arguments h opts = Inl (SystemExit code)"
      and "outcome h [] Validate_supported_runtime = None"
    using that by (simp add: main_def main_try_def and_then_def extern_def raise_def skip_def)
  with help_exits main_exit_code_on_raise show ?thesis by blast
qed

theorem parser_exit_gives_exit_code_1_witness:
  "process_arguments example_host [Opt_help] = Inl (SystemExit 0)
   \<and> outcome example_host [] Validate_supported_runtime = None
   \<and> main example_host [Opt_help] = (1, [(Validate_supported_runtime, None)])
   \<and> \<not> list_ex is_error_log (calls (snd (main example_host [Opt_help])))
   \<and> fst (main_try restore_failing_host [Opt_frameworks [''netcoreapp3.0'']] [])
        = Inl (CalledProcessError ''dotnet restore'' 1)
   \<and> fst (main restore_failing_host [Opt_frameworks [''netcoreapp3.0'']]) = 1"
proof -
  have h1: "process_arguments example_host [Opt_help] = Inl (SystemExit 0)"
    using parser_exit_gives_exit_code_1 [of example_host "[]"] by simp
  have h2: "outcome example_host [] Validate_supported_runtime = None"
    by (simp add: example_host_def)
  from parser_exit_gives_exit_code_1 [of example_host _ "[Opt_help]" 0] h1 h2
  have m: "main example_host [Opt_help] = (1, [(Validate_supported_runtime, None)])"
    by simp
  have h3: "fst (main_try restore_failing_host [Opt_frameworks [''netcoreapp3.0'']] [])
        = Inl (CalledProcessError ''dotnet restore'' 1)"
    by (simp add: eval_defs example_host_def restore_failing_host_def)
  from parser_exit_gives_exit_code_1 [of restore_failing_host _ "[Opt_frameworks [''netcoreapp3.0'']]"] h3
  have "fst (main restore_failing_host [Opt_frameworks [''netcoreapp3.0'']]) = 1"
    by simp
  with h1 h2 m h3 show ?thesis by (simp add: calls_def)
qed

text \<open>On the example host a request for help ends with exit code 1, not 0.\<close>

theorem help_exit_code_counterexample:
  "process_arguments example_host [Opt_help] = Inl (SystemExit 0)
   \<and> fst (main example_host [Opt_help]) = 1
   \<and> fst (main example_host [Opt_help]) \<noteq> 0"
  by (simp add: eval_defs example_host_def)

section \<open>Invalid target frameworks\<close>

text \<open>
  The check of the values against \<^verbatim>\<open>choices\<close> stops at the first value that is not a
  choice. The action of \<open>--frameworks\<close>, called on the same values, would raise with all
  of them; it is called only when the check has passed.
\<close>

lemma check_values_first_invalid:
  assumes "filter (\<lambda>v. v \<notin> set ch) vs = w # ws"
  shows "check_values ch vs = Inl (Invalid_choice w ch)"
  using assms
proof (induction vs)
  case Nil
  then show ?case by simp
next
  case (Cons v vs)
  then show ?case by (cases "v \<in> set ch") (simp_all add: check_value_def)
qed

lemma invalid_frameworks_rejected_at_first:
  assumes "filter (\<lambda>v. v \<notin> set (get_supported_target_frameworks h)) values = w # ws"
  shows "take_action h ns (Opt_frameworks values)
           = Inl (Exit_error (Invalid_choice w (get_supported_target_frameworks h)))"
    and "TargetFrameworkAction_call h ns values
           = Inl (''Invalid choice(s): '' @ str_join '', '' (w # ws))"
proof -
  from assms have ne: "values \<noteq> []" by auto
  with check_values_first_invalid [OF assms]
  show "take_action h ns (Opt_frameworks values)
           = Inl (Exit_error (Invalid_choice w (get_supported_target_frameworks h)))"
    by simp
  from ne assms show "TargetFrameworkAction_call h ns values
           = Inl (''Invalid choice(s): '' @ str_join '', '' (w # ws))"
    by (simp add: TargetFrameworkAction_call_def Let_def)
qed

text \<open>
  C3. For the frameworks \<open>bogus1\<close>, \<open>netcoreapp3.0\<close>, \<open>bogus2\<close> the parser exits with an
  error that names \<open>bogus1\<close> and the supported choices, and not \<open>bogus2\<close>; the script
  returns exit code 1 when only the runtime check has been made. The action alone would
  have raised with both names.
\<close>

theorem invalid_frameworks_only_first_reported:
  "parse_args example_host [Opt_frameworks [''bogus1'', ''netcoreapp3.0'', ''bogus2'']]
     = Inl (Exit_error (Invalid_choice ''bogus1''
              [''netcoreapp3.0'', ''netcoreapp2.2'', ''netcoreapp2.1'', ''netcoreapp2.0'']))
   \<and> main example_host [Opt_frameworks [''bogus1'', ''netcoreapp3.0'', ''bogus2'']]
     = (1, [(Validate_supported_runtime, None)])
   \<and> TargetFrameworkAction_call example_host default_namespace
        [''bogus1'', ''netcoreapp3.0'', ''bogus2'']
     = Inl ''Invalid choice(s): bogus1, bogus2''"
  by (simp add: eval_defs example_host_def)

section \<open>A failure ends the run\<close>

lemma failure_is_last:
  assumes eq: "xs @ ys = pre @ x # post"
    and ys: "\<forall>y\<in>set ys. snd y = None"
    and xs: "all_returned (butlast xs)"
    and x: "snd x \<noteq> None"
  shows "xs = pre @ [x] \<and> ys = post"
proof -
  from eq obtain us where
    "(xs = pre @ us \<and> us @ ys = x # post) \<or> (xs @ us = pre \<and> ys = us @ x # post)"
    by (auto simp: append_eq_append_conv2)
  then show ?thesis
  proof
    assume a: "xs = pre @ us \<and> us @ ys = x # post"
    show ?thesis
    proof (cases us)
      case Nil
      with a have "x \<in> set ys" by auto
      with ys x show ?thesis by auto
    next
      case (Cons u us')
      with a have u: "u = x" and r: "us' @ ys = post" and xs': "xs = pre @ x # us'" by auto
      have "us' = []"
      proof (rule ccontr)
        assume "us' \<noteq> []"
        then have "x \<in> set (butlast xs)" by (simp add: xs' butlast_append)
        with xs x show False by (auto simp: all_returned_def list_all_iff)
      qed
      with xs' r show ?thesis by simp
    qed
  next
    assume "xs @ us = pre \<and> ys = us @ x # post"
    then have "x \<in> set ys" by auto
    with ys x show ?thesis by auto
  qed
qed

lemma split_at_marked:
  assumes eq: "xs @ c # zs = A @ r # B"
    and c: "P c" and A: "\<not> list_ex P A" and B: "\<not> list_ex P B"
  shows "xs = A \<and> c = r \<and> zs = B"
proof -
  from eq obtain us where
    "(xs = A @ us \<and> us @ c # zs = r # B) \<or> (xs @ us = A \<and> c # zs = us @ r # B)"
    by (auto simp: append_eq_append_conv2)
  then show ?thesis
  proof
    assume a: "xs = A @ us \<and> us @ c # zs = r # B"
    show ?thesis
    proof (cases us)
      case Nil
      with a show ?thesis by simp
    next
      case (Cons u us')
      with a have "c \<in> set B" by auto
      with c B show ?thesis by (auto simp: list_ex_iff)
    qed
  next
    assume a: "xs @ us = A \<and> c # zs = us @ r # B"
    show ?thesis
    proof (cases us)
      case Nil
      with a show ?thesis by simp
    next
      case (Cons u us')
      with a have "c \<in> set A" by auto
      with c A show ?thesis by (auto simp: list_ex_iff)
    qed
  qed
qed

lemma header_plan_plain:
  "\<not> list_ex is_restore (header_plan m)" "\<not> list_ex is_build (header_plan m)"
  "\<not> list_ex is_run (header_plan m)" "\<not> list_ex is_remove_directory (header_plan m)"
  by (simp_all add: header_plan_def)

lemma clean_plan_plain:
  "\<not> list_ex is_restore (clean_plan h inc)" "\<not> list_ex is_build (clean_plan h inc)"
  "\<not> list_ex is_run (clean_plan h inc)"
  by (auto simp add: clean_plan_def header_plan_def binary_folders_def list_ex_iff)

lemma run_plans_no_restore:
  "\<not> list_ex is_restore (concat (map (\<lambda>f. run_plan c f v a) fs))"
  by (induction fs) (simp_all add: run_plan_def header_plan_def)

lemma main_plan_split:
  assumes "process_arguments h opts = Inr args"
  shows "\<exists>B. main_plan h opts
      = before_restore h args @ Restore (path_join h (get_repo_root_path h) ''packages'') (verbose args) # B
      \<and> \<not> list_ex is_restore B"
  using assms
  by (cases "frameworks args")
     (simp_all add: main_plan_def args_plan_def build_plan_def before_restore_def
        header_plan_plain run_plans_no_restore)

lemma before_restore_plain:
  "\<not> list_ex is_restore (before_restore h args)"
  "\<not> list_ex (\<lambda>c. is_build c \<or> is_run c) (before_restore h args)"
  using clean_plan_plain [of h "incremental args"]
    header_plan_plain [of "''Restoring .NET micro benchmarks''"]
  by (auto simp add: before_restore_def list_ex_iff)

lemma nothing_built_before_restore:
  assumes p: "prefix (xs @ [c]) (main_plan h opts)" and c: "is_restore c"
  shows "\<not> list_ex (\<lambda>c. is_build c \<or> is_run c) xs"
proof (cases "process_arguments h opts")
  case (Inl e)
  with p have "prefix (xs @ [c]) [Validate_supported_runtime]" by (simp add: main_plan_def)
  then have "c = Validate_supported_runtime"
    by (auto simp: prefix_def append_eq_Cons_conv Cons_eq_append_conv)
  with c show ?thesis by simp
next
  case (Inr args)
  from main_plan_split [OF Inr] obtain r B where
    mp: "main_plan h opts = before_restore h args @ r # B" and B: "\<not> list_ex is_restore B"
    by blast
  from p obtain zs where "before_restore h args @ r # B = xs @ c # zs"
    by (auto simp: prefix_def mp)
  then have "xs @ c # zs = before_restore h args @ r # B" by simp
  from split_at_marked [OF this, of is_restore] c before_restore_plain(1) B
  have "xs = before_restore h args" by blast
  with before_restore_plain(2) show ?thesis by simp
qed

text \<open>
  C5. When a call of the trace of the entry point has raised, the exit code is 1 and the
  trace holds nothing after that call but what the handler logs: no later stage is
  entered. When the call that raised is the restore, the trace holds no call of the build
  operation and no call of the run operation.
\<close>

theorem failure_aborts_later_stages:
  assumes "snd (main h opts) = pre @ (c, Some e) # post"
  shows "fst (main h opts) = 1
     \<and> list_all (\<lambda>entry. is_error_log (fst entry) \<and> snd entry = None) post
     \<and> (is_restore c \<longrightarrow>
          \<not> list_ex (\<lambda>c'. is_build c' \<or> is_run c') (calls (snd (main h opts))))"
proof -
  obtain ext hl where t: "snd (main h opts) = ext @ hl"
    "prefix (calls ext) (main_plan h opts)"
    "all_returned (butlast ext)"
    "list_all (\<lambda>entry. is_error_log (fst entry) \<and> snd entry = None) hl"
    "fst (main h opts) = 0 \<or> fst (main h opts) = 1"
    "fst (main h opts) = 0 \<Longrightarrow> calls ext = main_plan h opts \<and> all_returned ext \<and> hl = []"
    by (rule main_trace [of h opts]) blast
  from t(1) assms have eq: "ext @ hl = pre @ (c, Some e) # post" by simp
  from t(4) have hl: "\<forall>y\<in>set hl. snd y = None" by (simp add: list_all_iff)
  from failure_is_last [OF eq hl t(3)] have sp: "ext = pre @ [(c, Some e)]" "hl = post" by simp_all
  have code: "fst (main h opts) = 1"
  proof (rule ccontr)
    assume "fst (main h opts) \<noteq> 1"
    with t(5) have "fst (main h opts) = 0" by blast
    from t(6) [OF this] sp(1) show False by (simp add: all_returned_def)
  qed
  have "\<not> list_ex (\<lambda>c'. is_build c' \<or> is_run c') (calls (snd (main h opts)))" if r: "is_restore c"
  proof -
    from t(2) sp(1) have "prefix (calls pre @ [c]) (main_plan h opts)" by (simp add: calls_def)
    from nothing_built_before_restore [OF this r]
    have a: "\<not> list_ex (\<lambda>c'. is_build c' \<or> is_run c') (calls pre)" .
    from r have b: "\<not> (is_build c \<or> is_run c)" by (cases c) simp_all
    have d: "\<not> list_ex (\<lambda>c'. is_build c' \<or> is_run c') (calls hl)"
    proof -
      have "\<not> (is_build c' \<or> is_run c')" if "is_error_log c'" for c'
        using that by (cases c') simp_all
      with t(4) show ?thesis by (auto simp: calls_def list_all_iff list_ex_iff)
    qed
    from a b d show ?thesis by (simp add: t(1) sp(1) calls_def)
  qed
  with code t(4) sp(2) show ?thesis by simp
qed

theorem failure_aborts_later_stages_witness:
  "snd (main restore_failing_host [Opt_frameworks [''netcoreapp3.0'', ''netcoreapp2.2'']])
     = [(Validate_supported_runtime, None), (Setup_loggers False, None), (Dotnet_info False, None),
        (Log (Info ''-------------------------------''), None),
        (Log (Info ''Restoring .NET micro benchmarks''), None),
        (Log (Info ''-------------------------------''), None)]
       @ (Restore ''/repo/packages'' False, Some (CalledProcessError ''dotnet restore'' 1))
       # [(Log (Command_failed ''dotnet restore'' 1), None)]
   \<and> fst (main restore_failing_host [Opt_frameworks [''netcoreapp3.0'', ''netcoreapp2.2'']]) = 1
   \<and> \<not> list_ex (\<lambda>c'. is_build c' \<or> is_run c')
         (calls (snd (main restore_failing_host [Opt_frameworks [''netcoreapp3.0'', ''netcoreapp2.2'']])))"
proof -
  have tr: "snd (main restore_failing_host [Opt_frameworks [''netcoreapp3.0'', ''netcoreapp2.2'']])
     = [(Validate_supported_runtime, None), (Setup_loggers False, None), (Dotnet_info False, None),
        (Log (Info ''-------------------------------''), None),
        (Log (Info ''Restoring .NET micro benchmarks''), None),
        (Log (Info ''-------------------------------''), None)]
       @ (Restore ''/repo/packages'' False, Some (CalledProcessError ''dotnet restore'' 1))
       # [(Log (Command_failed ''dotnet restore'' 1), None)]"
    by (simp add: eval_defs example_host_def restore_failing_host_def)
  from failure_aborts_later_stages [OF tr] tr show ?thesis by simp
qed

section \<open>The clean stage\<close>
















section \<open>The first record of the pass-through arguments\<close>

lemmas step_defs = parse_process_char_def start_field_def parse_add_char_def parse_save_field_def
  set_state_def field_full_def

lemma code_points_simps:
  "code_points [] = 0"
  "code_points (c # cs) = (if continuation c then code_points cs else Suc (code_points cs))"
  "code_points (xs @ ys) = code_points xs + code_points ys"
  by (simp_all add: code_points_def)

lemma room:
  "code_points (fd @ c # t) \<le> field_limit \<Longrightarrow> \<not> field_full fd c"
  by (auto simp add: field_full_def code_points_simps)

lemma distinct_chars:
  "NUL \<noteq> LF" "NUL \<noteq> CR" "NUL \<noteq> quotechar" "NUL \<noteq> delimiter"
  "LF \<noteq> CR" "LF \<noteq> quotechar" "LF \<noteq> delimiter" "CR \<noteq> quotechar" "CR \<noteq> delimiter"
  "quotechar \<noteq> delimiter" "0 < field_limit"
  "\<not> continuation LF" "\<not> continuation quotechar"
  by (simp_all add: NUL_def LF_def CR_def quotechar_def delimiter_def field_limit_def
        continuation_def)

lemma step_char:
  assumes "consistent r" "c \<noteq> LF" "\<not> (c = NUL \<and> b)"
  shows "resume b r (c # cs) =
           (case parse_process_char r (Some c) of Inl e \<Rightarrow> Inl e | Inr r' \<Rightarrow> resume b r' cs)"
  using assms distinct_chars
  by (cases "state r")
     (auto simp add: resume_def first_record_def consistent_def step_defs code_points_simps)

lemma step_consistent:
  assumes "consistent r" "parse_process_char r (Some c) = Inr r'"
  shows "consistent r'"
  using assms distinct_chars
  by (cases "state r") (auto simp add: consistent_def step_defs split: if_splits)

lemma step_NUL: "resume True r (NUL # cs) = Inl Line_contains_NUL"
  using distinct_chars
  by (cases "state r") (simp_all add: resume_def first_record_def)

lemma step_end:
  assumes "consistent r"
  shows "record_of (reader_lines b r [[]]) = resume b r []"
  using assms
  by (cases "state r") (auto simp add: resume_def first_record_def consistent_def step_defs record_of_def)

lemma step_LF_quoted:
  assumes "state r = IN_QUOTED_FIELD"
  shows "reader_lines b r ([LF] # rest) =
     (if field_full (field r) LF then Inl Field_larger_than_field_limit
      else reader_lines b (r\<lparr>field := field r @ [LF]\<rparr>) rest)"
  using assms distinct_chars
  by (auto simp add: step_defs)

lemma step_LF_other:
  assumes "consistent r" "state r \<noteq> IN_QUOTED_FIELD"
  shows "record_of (reader_lines b r ([LF] # rest)) = resume b r (LF # cs)"
  using assms distinct_chars
  by (cases "state r") (auto simp add: resume_def first_record_def consistent_def step_defs record_of_def)

lemma stringio_lines_acc:
  "stringio_lines cur s =
     (case stringio_lines [] s of
        [] \<Rightarrow> (if cur = [] then [] else [cur])
      | l # ls \<Rightarrow> (cur @ l) # ls)"
proof (induction s arbitrary: cur)
  case Nil
  show ?case by simp
next
  case (Cons c cs)
  show ?case
  proof (cases "c = LF")
    case True
    then show ?thesis by simp
  next
    case False
    have "stringio_lines cur (c # cs) = stringio_lines (cur @ [c]) cs"
      using False by simp
    also have "\<dots> = (case stringio_lines [] cs of [] \<Rightarrow> [cur @ [c]] | l # ls \<Rightarrow> (cur @ [c] @ l) # ls)"
      by (subst Cons.IH) (simp split: list.splits)
    finally have lhs: "stringio_lines cur (c # cs) =
        (case stringio_lines [] cs of [] \<Rightarrow> [cur @ [c]] | l # ls \<Rightarrow> (cur @ [c] @ l) # ls)" .
    have "stringio_lines [] (c # cs) = stringio_lines [c] cs"
      using False by simp
    also have "\<dots> = (case stringio_lines [] cs of [] \<Rightarrow> [[c]] | l # ls \<Rightarrow> ([c] @ l) # ls)"
      by (subst Cons.IH) simp
    finally have rhs: "stringio_lines [] (c # cs) =
        (case stringio_lines [] cs of [] \<Rightarrow> [[c]] | l # ls \<Rightarrow> ([c] @ l) # ls)" .
    show ?thesis
      unfolding lhs rhs by (cases "stringio_lines [] cs") simp_all
  qed
qed

lemma stringio_lines_empty: "stringio_lines [] s = [] \<longleftrightarrow> s = []"
proof (cases s)
  case Nil
  then show ?thesis by simp
next
  case (Cons c cs)
  show ?thesis
  proof (cases "c = LF")
    case True
    with Cons show ?thesis by simp
  next
    case False
    have "stringio_lines [c] cs \<noteq> []"
      by (subst stringio_lines_acc) (simp split: list.splits)
    with False Cons show ?thesis by simp
  qed
qed

lemma remaining_lines_Cons:
  assumes "c \<noteq> LF"
  shows "remaining_lines (c # cs) = (c # hd (remaining_lines cs)) # tl (remaining_lines cs)"
proof -
  have "stringio_lines [] (c # cs) = stringio_lines [c] cs"
    using assms by simp
  also have "\<dots> = (case stringio_lines [] cs of [] \<Rightarrow> [[c]] | l # ls \<Rightarrow> ([c] @ l) # ls)"
    by (subst stringio_lines_acc) simp
  finally show ?thesis
    using stringio_lines_empty [of cs]
    by (cases "stringio_lines [] cs") (auto simp add: remaining_lines_def)
qed

lemma remaining_lines_LF: "remaining_lines (LF # cs) = [LF] # stringio_lines [] cs"
  by (simp add: remaining_lines_def)

lemma reader_lines_first_char:
  "reader_lines b r ((c # l) # ls) =
     (if c = NUL \<and> b then Inl Line_contains_NUL
      else (case parse_process_char r (Some c) of
              Inl e \<Rightarrow> Inl e
            | Inr r' \<Rightarrow> reader_lines b r' (l # ls)))"
  by (cases "parse_process_char r (Some c)") simp_all

lemma reader_lines_quoted_remaining:
  assumes "state r = IN_QUOTED_FIELD"
  shows "reader_lines b r (stringio_lines [] cs) = reader_lines b r (remaining_lines cs)"
  using assms by (simp add: remaining_lines_def parse_process_char_def)

lemma reader_lines_resume:
  "consistent r \<Longrightarrow> record_of (reader_lines b r (remaining_lines s)) = resume b r s"
proof (induction s arbitrary: r)
  case Nil
  from step_end [OF this, of b] show ?case
    by (simp add: remaining_lines_def del: reader_lines.simps)
next
  case (Cons c cs)
  show ?case
  proof (cases "c = LF")
    case True
    show ?thesis
    proof (cases "state r = IN_QUOTED_FIELD")
      case False
      from step_LF_other [OF Cons.prems False, of b "stringio_lines [] cs" cs] True
      show ?thesis
        by (simp only: remaining_lines_LF)
    next
      case quoted: True
      show ?thesis
      proof (cases "field_full (field r) LF")
        case True
        with quoted \<open>c = LF\<close> distinct_chars show ?thesis
          by (simp add: remaining_lines_LF step_LF_quoted resume_def record_of_def
                del: reader_lines.simps)
      next
        case False
        let ?r = "r\<lparr>field := field r @ [LF]\<rparr>"
        from quoted have q: "state ?r = IN_QUOTED_FIELD" by simp
        then have "consistent ?r" by (simp add: consistent_def)
        from Cons.IH [OF this]
        have "record_of (reader_lines b ?r (stringio_lines [] cs)) = resume b ?r cs"
          by (simp only: reader_lines_quoted_remaining [OF q])
        with False quoted \<open>c = LF\<close> distinct_chars show ?thesis
          by (simp add: remaining_lines_LF step_LF_quoted resume_def
                del: reader_lines.simps)
      qed
    qed
  next
    case False
    note rl = remaining_lines_Cons [OF False, of cs]
    show ?thesis
    proof (cases "c = NUL \<and> b")
      case True
      have "reader_lines b r (remaining_lines (c # cs)) = Inl Line_contains_NUL"
        unfolding rl reader_lines_first_char using True by simp
      moreover have "resume b r (c # cs) = Inl Line_contains_NUL"
        using True step_NUL by simp
      ultimately show ?thesis by (simp add: record_of_def)
    next
      case nonul: False
      show ?thesis
      proof (cases "parse_process_char r (Some c)")
        case (Inl e)
        with nonul show ?thesis
          by (simp only: rl reader_lines_first_char step_char [OF Cons.prems False nonul])
             (auto simp add: record_of_def)
      next
        case (Inr r')
        from step_consistent [OF Cons.prems Inr] have "consistent r'" .
        from Cons.IH [OF this]
        have ih: "record_of (reader_lines b r' (hd (remaining_lines cs) # tl (remaining_lines cs)))
            = resume b r' cs"
          by (simp add: remaining_lines_def stringio_lines_empty)
        from nonul Inr ih show ?thesis
          by (simp only: rl reader_lines_first_char step_char [OF Cons.prems False nonul])
             auto
      qed
    qed
  qed
qed

lemma get_bdn_arguments_first_record:
  "get_bdn_arguments h input = first_record (csv_rejects_nul h) input"
proof (cases "input = []")
  case True
  then show ?thesis
    by (simp add: get_bdn_arguments_def reader_next_def parse_reset_def first_record_def)
next
  case False
  have c: "consistent parse_reset"
    by (simp add: consistent_def parse_reset_def)
  have "get_bdn_arguments h input
      = record_of (reader_lines (csv_rejects_nul h) parse_reset (stringio_lines [] input))"
    by (simp add: get_bdn_arguments_def reader_next_def record_of_def
          split: sum.splits option.splits)
  also have "\<dots> = record_of (reader_lines (csv_rejects_nul h) parse_reset (remaining_lines input))"
    using False by (simp add: remaining_lines_def)
  also have "\<dots> = resume (csv_rejects_nul h) parse_reset input"
    by (rule reader_lines_resume [OF c])
  also have "\<dots> = first_record (csv_rejects_nul h) input"
    by (simp add: resume_def parse_reset_def)
  finally show ?thesis .
qed

lemma read_at_tail:
  assumes "is_tail tail"
  shows "read_field b fs tail = Inr (fs @ [[]])"
    and "read_unquoted b fs fd tail = Inr (fs @ [fd])"
    and "read_after_quote b fs fd tail = Inr (fs @ [fd])"
    and "first_record b tail = Inr []"
  using assms distinct_chars
  by (cases tail; simp add: is_tail_def first_record_def)+

lemma read_quoted_token:
  assumes "code_points (fd @ t) \<le> field_limit" "NUL \<notin> set t"
  shows "read_quoted b fs fd
           (concat (map (\<lambda>c. if c = quotechar then [quotechar, quotechar] else [c]) t)
              @ quotechar # rest)
         = read_after_quote b fs (fd @ t) rest"
  using assms
proof (induction t arbitrary: fd)
  case Nil
  then show ?case using distinct_chars by simp
next
  case (Cons c t)
  from Cons.prems have len: "\<not> field_full fd c" "code_points ((fd @ [c]) @ t) \<le> field_limit"
    and nul: "c \<noteq> NUL" "NUL \<notin> set t"
    by (auto simp add: room)
  from Cons.IH [OF len(2) nul(2)] len(1) nul(1) show ?case
    using distinct_chars by auto
qed

lemma read_field_render:
  assumes "\<forall>t\<in>set (t # ts). code_points t \<le> field_limit \<and> NUL \<notin> set t" "is_tail tail"
  shows "read_field b fs (render (t # ts) @ tail) = Inr (fs @ t # ts)"
  using assms
proof (induction ts arbitrary: t fs)
  case Nil
  then have "code_points ([] @ t) \<le> field_limit" "NUL \<notin> set t" by simp_all
  from read_quoted_token [OF this, of b fs tail] Nil.prems(2) show ?case
    using distinct_chars by (simp add: render_def quote_token_def read_at_tail)
next
  case (Cons u us)
  then have t: "code_points ([] @ t) \<le> field_limit" "NUL \<notin> set t"
    and rest: "\<forall>t\<in>set (u # us). code_points t \<le> field_limit \<and> NUL \<notin> set t"
    by simp_all
  have "read_field b fs (render (t # u # us) @ tail)
      = read_quoted b fs []
          (concat (map (\<lambda>c. if c = quotechar then [quotechar, quotechar] else [c]) t)
             @ quotechar # (delimiter # render (u # us) @ tail))"
    using distinct_chars by (simp add: render_def quote_token_def)
  also have "\<dots> = read_after_quote b fs t (delimiter # render (u # us) @ tail)"
    using read_quoted_token [OF t] by simp
  also have "\<dots> = read_field b (fs @ [t]) (render (u # us) @ tail)"
    using distinct_chars by simp
  also have "\<dots> = Inr ((fs @ [t]) @ u # us)"
    by (rule Cons.IH [OF rest Cons.prems(2)])
  finally show ?case by simp
qed

lemma first_record_render:
  assumes "\<forall>t\<in>set ts. code_points t \<le> field_limit \<and> NUL \<notin> set t" "is_tail tail"
  shows "first_record b (render ts @ tail) = Inr ts"
proof (cases ts)
  case Nil
  with assms(2) show ?thesis by (simp add: render_def read_at_tail)
next
  case (Cons t us)
  obtain x where x: "render (t # us) @ tail = quotechar # x"
    by (cases us) (simp_all add: render_def quote_token_def)
  have "first_record b (render (t # us) @ tail) = read_field b [] (render (t # us) @ tail)"
    unfolding x using distinct_chars by (simp add: first_record_def)
  with read_field_render [of t us tail b "[]"] assms Cons show ?thesis by simp
qed

lemma read_plain:
  assumes "\<forall>c\<in>set l. c \<notin> {LF, CR, NUL, quotechar}" "is_tail tail"
  shows "code_points (fd @ l) \<le> field_limit \<Longrightarrow>
           read_unquoted b fs fd (l @ tail)
             = Inr (fs @ (fd @ hd (split_fields l)) # tl (split_fields l))"
    and "code_points l \<le> field_limit \<Longrightarrow> read_field b fs (l @ tail) = Inr (fs @ split_fields l)"
  using assms(1)
proof (induction l arbitrary: fs fd)
  case Nil
  { case 1 show ?case using assms(2) by (simp add: read_at_tail) }
  { case 2 show ?case using assms(2) by (simp add: read_at_tail) }
next
  case (Cons c l)
  { case 1
    from 1 have c: "c \<noteq> LF" "c \<noteq> CR" "c \<noteq> NUL" "c \<noteq> quotechar"
      and l: "\<forall>c\<in>set l. c \<notin> {LF, CR, NUL, quotechar}"
      by auto
    from 1 have len: "\<not> field_full fd c" "code_points ((fd @ [c]) @ l) \<le> field_limit"
        "code_points l \<le> field_limit"
      by (simp_all add: room) (simp add: code_points_simps split: if_splits)
    show ?case
    proof (cases "c = delimiter")
      case True
      with c Cons.IH(2) [OF len(3) l, of "fs @ [fd]"] show ?thesis by simp
    next
      case False
      with c len(1) Cons.IH(1) [OF len(2) l, of fs] show ?thesis by simp
    qed }
  { case 2
    from 2 have c: "c \<noteq> LF" "c \<noteq> CR" "c \<noteq> NUL" "c \<noteq> quotechar"
      and l: "\<forall>c\<in>set l. c \<notin> {LF, CR, NUL, quotechar}"
      by auto
    from 2 have len: "code_points ([c] @ l) \<le> field_limit" "code_points l \<le> field_limit"
      by (simp_all add: code_points_simps split: if_splits)
    show ?case
    proof (cases "c = delimiter")
      case True
      with c Cons.IH(2) [OF len(2) l, of "fs @ [[]]"] show ?thesis by simp
    next
      case False
      with c Cons.IH(1) [OF len(1) l, of fs] show ?thesis by simp
    qed }
qed

lemma first_record_plain:
  assumes "\<forall>c\<in>set l. c \<notin> {LF, CR, NUL, quotechar}" "code_points l \<le> field_limit" "is_tail tail"
  shows "first_record b (l @ tail) = Inr (if l = [] then [] else split_fields l)"
proof (cases l)
  case Nil
  with assms(3) show ?thesis by (simp add: read_at_tail)
next
  case (Cons c cs)
  with assms(1) have "first_record b (l @ tail) = read_field b [] (l @ tail)"
    by (simp add: first_record_def)
  with read_plain(2) [OF assms(1) assms(3) assms(2), of b "[]"] Cons show ?thesis by simp
qed

text \<open>The definitions that evaluate the reader on a given string.\<close>

lemmas csv_defs = get_bdn_arguments_def reader_next_def parse_reset_def parse_process_char_def
  start_field_def parse_add_char_def parse_save_field_def set_state_def field_limit_def
  continuation_def code_points_def LF_def CR_def NUL_def quotechar_def delimiter_def

text \<open>
  C9. The pass-through string is split as the CSV reader with the space as delimiter and
  the double quote as quote character splits it, and only the first record is returned.
  The empty string gives the empty list. For every string and every host, what the line
  reader returns or raises is what reading the string as one text from left to right
  gives: fields separated by one space each, a quoted field running to its closing quote
  with a doubled quote for one quote, the record ending at the first line break outside
  quotes, and nothing after that read. A string whose first line holds no quote, no
  carriage return and no NUL, and no more characters than the field limit, gives the
  fields of that line between its spaces, empty ones kept (none for an empty line),
  whatever follows the line feed. Tokens without NUL and within the field limit, written
  between double quotes with their quotes doubled and one space between them, are read
  back as they were, whatever follows the line feed. A quoted field keeps its spaces and
  line feeds, a quote left open runs to the end of the string, and the second line is not
  read when the first ends outside quotes.
\<close>

theorem first_record_of_pass_through_arguments:
  "get_bdn_arguments h [] = Inr []
   \<and> get_bdn_arguments h input = first_record (csv_rejects_nul h) input
   \<and> ((\<forall>c\<in>set l. c \<notin> {LF, CR, NUL, quotechar}) \<and> code_points l \<le> field_limit \<longrightarrow>
        get_bdn_arguments h l = Inr (if l = [] then [] else split_fields l)
        \<and> get_bdn_arguments h (l @ LF # rest) = Inr (if l = [] then [] else split_fields l))
   \<and> ((\<forall>t\<in>set ts. code_points t \<le> field_limit \<and> NUL \<notin> set t) \<longrightarrow>
        get_bdn_arguments h (render ts) = Inr ts
        \<and> get_bdn_arguments h (render ts @ LF # rest) = Inr ts)
   \<and> get_bdn_arguments h (''--filter '' @ [quotechar] @ ''a b'' @ [quotechar] @ '' c'')
        = Inr [''--filter'', ''a b'', ''c'']
   \<and> get_bdn_arguments h (''a '' @ [quotechar] @ ''b c'' @ [quotechar] @ [LF] @ ''d e'')
        = Inr [''a'', ''b c'']
   \<and> get_bdn_arguments h
        ([quotechar] @ ''a'' @ [quotechar, quotechar] @ ''b'' @ [quotechar] @ '' c'')
        = Inr [''a'' @ [quotechar] @ ''b'', ''c'']
   \<and> get_bdn_arguments h ([quotechar] @ ''abc'') = Inr [''abc'']
   \<and> get_bdn_arguments h
        ([quotechar] @ ''a'' @ [LF] @ ''b'' @ [quotechar] @ '' c'' @ [LF] @ ''d'')
        = Inr [''a'' @ [LF] @ ''b'', ''c'']"
proof -
  have empty: "get_bdn_arguments h [] = Inr []"
    by (simp add: get_bdn_arguments_def reader_next_def parse_reset_def)
  have whole: "get_bdn_arguments h input = first_record (csv_rejects_nul h) input"
    by (rule get_bdn_arguments_first_record)
  have tails: "is_tail []" "is_tail (LF # rest)"
    by (simp_all add: is_tail_def)
  have plain_line: "get_bdn_arguments h l = Inr (if l = [] then [] else split_fields l)
        \<and> get_bdn_arguments h (l @ LF # rest) = Inr (if l = [] then [] else split_fields l)"
    if "\<forall>c\<in>set l. c \<notin> {LF, CR, NUL, quotechar}" "code_points l \<le> field_limit"
    using first_record_plain [OF that tails(1), of "csv_rejects_nul h"]
          first_record_plain [OF that tails(2), of "csv_rejects_nul h"]
    by (simp add: get_bdn_arguments_first_record)
  have round_trip: "get_bdn_arguments h (render ts) = Inr ts
        \<and> get_bdn_arguments h (render ts @ LF # rest) = Inr ts"
    if "\<forall>t\<in>set ts. code_points t \<le> field_limit \<and> NUL \<notin> set t"
    using first_record_render [OF that tails(1), of "csv_rejects_nul h"]
          first_record_render [OF that tails(2), of "csv_rejects_nul h"]
    by (simp add: get_bdn_arguments_first_record)
  have e1: "get_bdn_arguments h (''--filter '' @ [quotechar] @ ''a b'' @ [quotechar] @ '' c'')
        = Inr [''--filter'', ''a b'', ''c'']"
    by (simp add: csv_defs)
  have e2: "get_bdn_arguments h (''a '' @ [quotechar] @ ''b c'' @ [quotechar] @ [LF] @ ''d e'')
        = Inr [''a'', ''b c'']"
    by (simp add: csv_defs)
  have e3: "get_bdn_arguments h
        ([quotechar] @ ''a'' @ [quotechar, quotechar] @ ''b'' @ [quotechar] @ '' c'')
        = Inr [''a'' @ [quotechar] @ ''b'', ''c'']"
    by (simp add: csv_defs)
  have e4: "get_bdn_arguments h ([quotechar] @ ''abc'') = Inr [''abc'']"
    by (simp add: csv_defs)
  have e5: "get_bdn_arguments h
        ([quotechar] @ ''a'' @ [LF] @ ''b'' @ [quotechar] @ '' c'' @ [LF] @ ''d'')
        = Inr [''a'' @ [LF] @ ''b'', ''c'']"
    by (simp add: csv_defs)
  from empty whole plain_line round_trip e1 e2 e3 e4 e5 show ?thesis by blast
qed

theorem first_record_of_pass_through_arguments_witness:
  "code_points ''--iterations 5'' \<le> field_limit
   \<and> get_bdn_arguments example_host ''--iterations 5'' = Inr [''--iterations'', ''5'']
   \<and> get_bdn_arguments example_host (''--iterations 5'' @ LF # ''--runtimes  x'')
       = Inr [''--iterations'', ''5'']
   \<and> get_bdn_arguments example_host ''a  b '' = Inr [''a'', [], ''b'', []]
   \<and> render [''a b'', ''c'' @ [quotechar] @ ''d'', []]
       = [quotechar] @ ''a b'' @ [quotechar] @ '' '' @ [quotechar] @ ''c''
           @ [quotechar, quotechar] @ ''d'' @ [quotechar] @ '' '' @ [quotechar, quotechar]
   \<and> get_bdn_arguments example_host
        ([quotechar] @ ''a b'' @ [quotechar] @ '' '' @ [quotechar] @ ''c''
           @ [quotechar, quotechar] @ ''d'' @ [quotechar] @ '' '' @ [quotechar, quotechar]
           @ LF # ''e'')
       = Inr [''a b'', ''c'' @ [quotechar] @ ''d'', []]
   \<and> first_record (csv_rejects_nul example_host) (''a'' @ [CR] @ ''b'')
       = Inl Newline_in_unquoted_field
   \<and> get_bdn_arguments example_host (''a'' @ [CR] @ ''b'') = Inl Newline_in_unquoted_field"
proof -
  note plain_line = first_record_of_pass_through_arguments
    [THEN conjunct2, THEN conjunct2, THEN conjunct1, rule_format]
  note round_trip = first_record_of_pass_through_arguments
    [THEN conjunct2, THEN conjunct2, THEN conjunct2, THEN conjunct1, rule_format]
  note whole = first_record_of_pass_through_arguments [THEN conjunct2, THEN conjunct1]
  have p1: "\<forall>c\<in>set ''--iterations 5''. c \<notin> {LF, CR, NUL, quotechar}"
    by (simp add: LF_def CR_def NUL_def quotechar_def)
  have l1: "code_points ''--iterations 5'' \<le> field_limit"
    by (simp add: field_limit_def code_points_def continuation_def)
  have p2: "\<forall>c\<in>set ''a  b ''. c \<notin> {LF, CR, NUL, quotechar}"
    by (simp add: LF_def CR_def NUL_def quotechar_def)
  have l2: "code_points ''a  b '' \<le> field_limit"
    by (simp add: field_limit_def code_points_def continuation_def)
  from plain_line [of "''--iterations 5''" example_host "''--runtimes  x''"] p1 l1
  have a: "get_bdn_arguments example_host ''--iterations 5'' = Inr [''--iterations'', ''5'']"
          "get_bdn_arguments example_host (''--iterations 5'' @ LF # ''--runtimes  x'')
             = Inr [''--iterations'', ''5'']"
    by (simp_all add: delimiter_def)
  from plain_line [of "''a  b ''" example_host] p2 l2
  have b: "get_bdn_arguments example_host ''a  b '' = Inr [''a'', [], ''b'', []]"
    by (simp add: delimiter_def)
  let ?ts = "[''a b'', ''c'' @ [quotechar] @ ''d'', []]"
  have t: "\<forall>t\<in>set ?ts. code_points t \<le> field_limit \<and> NUL \<notin> set t"
    by (simp add: field_limit_def NUL_def quotechar_def code_points_def continuation_def)
  have r: "render ?ts
       = [quotechar] @ ''a b'' @ [quotechar] @ '' '' @ [quotechar] @ ''c''
           @ [quotechar, quotechar] @ ''d'' @ [quotechar] @ '' '' @ [quotechar, quotechar]"
    by (simp add: render_def quote_token_def quotechar_def delimiter_def)
  from round_trip [of ?ts example_host "''e''"] t
  have "get_bdn_arguments example_host (render ?ts @ LF # ''e'') = Inr ?ts"
    by blast
  then have c: "get_bdn_arguments example_host
        ([quotechar] @ ''a b'' @ [quotechar] @ '' '' @ [quotechar] @ ''c''
           @ [quotechar, quotechar] @ ''d'' @ [quotechar] @ '' '' @ [quotechar, quotechar]
           @ LF # ''e'')
       = Inr ?ts"
    by (simp only: r append_assoc)
  have d: "first_record (csv_rejects_nul example_host) (''a'' @ [CR] @ ''b'')
       = Inl Newline_in_unquoted_field"
    by (simp add: first_record_def example_host_def NUL_def LF_def CR_def quotechar_def
          delimiter_def field_limit_def field_full_def code_points_def continuation_def)
  from whole [of example_host "''a'' @ [CR] @ ''b''"] d
  have e: "get_bdn_arguments example_host (''a'' @ [CR] @ ''b'') = Inl Newline_in_unquoted_field"
    by simp
  from l1 a b r c d e show ?thesis by blast
qed

text \<open>
  A tab between two words is whitespace, and splitting at whitespace gives the two
  words; the reader returns one token that holds the tab. Two spaces between two words
  give an empty token between them.
\<close>

theorem whitespace_delimited_counterexample:
  "is_whitespace (CHR 0x09)
   \<and> whitespace_delimited [] (''a'' @ [CHR 0x09] @ ''b'') = [''a'', ''b'']
   \<and> get_bdn_arguments example_host (''a'' @ [CHR 0x09] @ ''b'') = Inr [''a'' @ [CHR 0x09] @ ''b'']
   \<and> get_bdn_arguments example_host (''a'' @ [CHR 0x09] @ ''b'')
       \<noteq> Inr (whitespace_delimited [] (''a'' @ [CHR 0x09] @ ''b''))
   \<and> whitespace_delimited [] ''a  b'' = [''a'', ''b'']
   \<and> get_bdn_arguments example_host ''a  b'' = Inr [''a'', [], ''b'']"
proof -
  have tab: "get_bdn_arguments example_host (''a'' @ [CHR 0x09] @ ''b'') = Inr [''a'' @ [CHR 0x09] @ ''b'']"
    by (simp add: csv_defs)
  have spaces: "get_bdn_arguments example_host ''a  b'' = Inr [''a'', [], ''b'']"
    by (simp add: csv_defs)
  have split: "whitespace_delimited [] (''a'' @ [CHR 0x09] @ ''b'') = [''a'', ''b'']"
      "whitespace_delimited [] ''a  b'' = [''a'', ''b'']"
    by (simp_all add: is_whitespace_def)
  have ws: "is_whitespace (CHR 0x09)"
    by (simp add: is_whitespace_def)
  from tab spaces split ws show ?thesis by simp
qed

end
